theory Spec2Isabelle
  imports Main "HOL-Library.AList" "HOL-Library.Char_ord" "HOL-Library.List_Lexorder"
begin

section \<open>Python values used by TableDependencyTracer.py\<close>

text \<open>
  Strings are \<open>string\<close> (lists of 8-bit characters); the corpus is taken to be ASCII text,
  which is what the identifier classes of the source's patterns (\<open>[a-z0-9_]\<close>) range over.
  A \<open>Dict[str, str]\<close> row is an association list in insertion order: assigning to a
  key that is present overwrites the value in place, assigning to a new key appends, which
  is what \<open>AList.update\<close> does. Exceptions are values of \<open>py_error\<close>.
\<close>

datatype py_error = IndexError | SystemExit int

type_synonym row = "(string \<times> string) list"

subsection \<open>Decimal rendering of an integer, as in \<open>f"Layer {i}"\<close>\<close>

definition digit_char :: "nat \<Rightarrow> char" where
  "digit_char d = char_of (48 + d)"

fun str_nat :: "nat \<Rightarrow> string" where
  "str_nat n = (if n < 10 then [digit_char n] else str_nat (n div 10) @ [digit_char (n mod 10)])"

declare str_nat.simps [simp del]

text \<open>The value of a string of decimal digits.\<close>

definition digits_value :: "string \<Rightarrow> nat" where
  "digits_value s = foldl (\<lambda>a c. 10 * a + (of_char c - 48)) 0 s"

definition layer_key :: "nat \<Rightarrow> string" where
  "layer_key i = ''Layer '' @ str_nat i"

section \<open>Tabular output shaping\<close>

text \<open>
  \<open>set_layers i inter row\<close> is the loop
  \<^verbatim>\<open>for i, name in enumerate(inter, start=1): row[f"Layer {i}"] = name\<close>,
  with the running index as an argument.
\<close>

primrec set_layers :: "nat \<Rightarrow> string list \<Rightarrow> row \<Rightarrow> row" where
  "set_layers i [] r = r"
| "set_layers i (name # rest) r = set_layers (Suc i) rest (AList.update (layer_key i) name r)"

text \<open>
  One iteration of the loop of \<open>shape_paths_to_rows\<close>. For the empty path the source
  evaluates \<open>p[-1]\<close>, which raises \<open>IndexError\<close>; \<open>p[1:-1]\<close> is \<open>butlast (tl p)\<close>.
\<close>

definition shape_path :: "string \<Rightarrow> string list \<Rightarrow> py_error + row" where
  "shape_path target p =
     (if length p = 1 then Inr [(''Target Table'', target), (''Source Table'', p ! 0)]
      else if p = [] then Inl IndexError
      else
        (let inter = butlast (tl p);
             leaf = last p;
             r0 = [(''Target Table'', target)];
             r1 = set_layers 1 inter r0
         in Inr (AList.update ''Source Table'' leaf r1)))"

fun shape_paths_to_rows :: "string \<Rightarrow> string list list \<Rightarrow> py_error + row list" where
  "shape_paths_to_rows target [] = Inr []"
| "shape_paths_to_rows target (p # ps) =
     (case shape_path target p of
        Inl e \<Rightarrow> Inl e
      | Inr r \<Rightarrow>
          (case shape_paths_to_rows target ps of
             Inl e \<Rightarrow> Inl e
           | Inr rs \<Rightarrow> Inr (r # rs)))"

section \<open>Characters and the source's patterns\<close>

text \<open>
  \<open>is_space\<close> is Python's \<open>\s\<close> (and \<open>str.isspace\<close>) on ASCII: the codes 9 to 13
  and 28 to 32. \<open>is_word\<close> is \<open>\w\<close>, \<open>is_ident\<close> the class \<open>[a-z0-9_]\<close> of the
  lower-cased patterns, \<open>lower\<close> is \<open>str.lower\<close>.
\<close>

definition is_space :: "char \<Rightarrow> bool" where
  "is_space c \<longleftrightarrow> (let n = (of_char c :: nat) in (9 \<le> n \<and> n \<le> 13) \<or> (28 \<le> n \<and> n \<le> 32))"

definition is_upper :: "char \<Rightarrow> bool" where
  "is_upper c \<longleftrightarrow> CHR ''A'' \<le> c \<and> c \<le> CHR ''Z''"

definition is_ident :: "char \<Rightarrow> bool" where
  "is_ident c \<longleftrightarrow> (CHR ''a'' \<le> c \<and> c \<le> CHR ''z'') \<or> (CHR ''0'' \<le> c \<and> c \<le> CHR ''9'') \<or> c = CHR ''_''"

definition is_word :: "char \<Rightarrow> bool" where
  "is_word c \<longleftrightarrow> is_ident c \<or> is_upper c"

definition lower_char :: "char \<Rightarrow> char" where
  "lower_char c = (if is_upper c then char_of (of_char c + (32::nat)) else c)"

definition lower :: "string \<Rightarrow> string" where
  "lower s = map lower_char s"

definition strip :: "string \<Rightarrow> string" where
  "strip s = rev (dropWhile is_space (rev (dropWhile is_space s)))"

text \<open>\<open>lit s t\<close>: the text left after the literal \<open>s\<close> at the head of \<open>t\<close>.\<close>

fun lit :: "string \<Rightarrow> string \<Rightarrow> string option" where
  "lit [] t = Some t"
| "lit (c # cs) [] = None"
| "lit (c # cs) (d # ds) = (if c = d then lit cs ds else None)"

text \<open>
  \<open>at_word t\<close>: the text starts with a word character; \<open>\b\<close> holds between a
  position's left and right neighbours when exactly one of them is a word character
  (the start and the end of the text count as non-word).
\<close>

definition at_word :: "string \<Rightarrow> bool" where
  "at_word t \<longleftrightarrow> (case t of [] \<Rightarrow> False | c # _ \<Rightarrow> is_word c)"

text \<open>
  \<open>word_boundary_pattern_fqtn(fqtn).search(text)\<close>: the pattern is
  \<open>\b\<close>, the escaped (hence literal) name, \<open>\b\<close>. \<open>w\<close> tells whether the character
  before the current position is a word character.
\<close>

definition wb_here :: "string \<Rightarrow> bool \<Rightarrow> string \<Rightarrow> bool" where
  "wb_here pat w t =
     (case lit pat t of
        None \<Rightarrow> False
      | Some rest \<Rightarrow>
          w \<noteq> at_word t \<and> (if pat = [] then w else is_word (last pat)) \<noteq> at_word rest)"

fun wb_search :: "string \<Rightarrow> bool \<Rightarrow> string \<Rightarrow> bool" where
  "wb_search pat w [] = wb_here pat w []"
| "wb_search pat w (c # cs) = (wb_here pat w (c # cs) \<or> wb_search pat (is_word c) cs)"

text \<open>
  \<open>findall\<close> and \<open>search\<close> of a compiled pattern. A matcher \<open>m w t\<close> tries the pattern
  at the head of \<open>t\<close> and gives the groups and the text after the match; matches do not
  overlap, so after a match the scan skips the characters it consumed (the counter).
  None of the source's patterns matches the empty string.
\<close>

fun findall :: "(bool \<Rightarrow> string \<Rightarrow> ('g \<times> string) option) \<Rightarrow> bool \<Rightarrow> nat \<Rightarrow> string \<Rightarrow> 'g list" where
  "findall m w k [] = []"
| "findall m w (Suc k) (c # cs) = findall m (is_word c) k cs"
| "findall m w 0 (c # cs) =
     (case m w (c # cs) of
        Some (g, rest) \<Rightarrow> g # findall m (is_word c) (length cs - length rest) cs
      | None \<Rightarrow> findall m (is_word c) 0 cs)"

fun search :: "(bool \<Rightarrow> string \<Rightarrow> ('g \<times> string) option) \<Rightarrow> bool \<Rightarrow> string \<Rightarrow> 'g option" where
  "search m w [] = None"
| "search m w (c # cs) =
     (case m w (c # cs) of
        Some (g, rest) \<Rightarrow> Some g
      | None \<Rightarrow> search m (is_word c) cs)"

text \<open>The sub-pattern \<open>([a-z0-9_]+)\.([a-z0-9_]+)\<close>: both runs are maximal, since
  neither the dot nor what may follow belongs to the class.\<close>

definition dotted :: "string \<Rightarrow> ((string \<times> string) \<times> string) option" where
  "dotted t =
     (let db = takeWhile is_ident t; t1 = dropWhile is_ident t in
      if db = [] then None
      else
        (case t1 of
           [] \<Rightarrow> None
         | d # t2 \<Rightarrow>
             if d \<noteq> CHR ''.'' then None
             else
               (let tbl = takeWhile is_ident t2; t3 = dropWhile is_ident t2 in
                if tbl = [] then None else Some ((db, tbl), t3))))"

definition is_quote :: "char \<Rightarrow> bool" where
  "is_quote c \<longleftrightarrow> c = CHR 0x27 \<or> c = CHR 0x22"

text \<open>The sub-pattern \<open>['\"]([a-z0-9_]+)\.([a-z0-9_]+)['\"]\<close>.\<close>

definition quoted_dotted :: "string \<Rightarrow> ((string \<times> string) \<times> string) option" where
  "quoted_dotted t =
     (case t of
        [] \<Rightarrow> None
      | q # t1 \<Rightarrow>
          if \<not> is_quote q then None
          else
            (case dotted t1 of
               None \<Rightarrow> None
             | Some (g, t2) \<Rightarrow>
                 (case t2 of
                    [] \<Rightarrow> None
                  | q' # t3 \<Rightarrow> if is_quote q' then Some (g, t3) else None)))"

text \<open>\<open>call_pattern name close\<close> is
  \<open>name\(\s*['\"]([a-z0-9_]+)\.([a-z0-9_]+)['\"]\s*close\<close>, the shape shared by
  \<open>RE_SPARK_TABLE_L\<close> and \<open>RE_INSERT_INTO_L\<close>.\<close>

definition call_pattern :: "string \<Rightarrow> char \<Rightarrow> bool \<Rightarrow> string \<Rightarrow> ((string \<times> string) \<times> string) option" where
  "call_pattern name close w t =
     (case lit name t of
        None \<Rightarrow> None
      | Some t1 \<Rightarrow>
          (case quoted_dotted (dropWhile is_space t1) of
             None \<Rightarrow> None
           | Some (g, t2) \<Rightarrow>
               (case dropWhile is_space t2 of
                  [] \<Rightarrow> None
                | c # t3 \<Rightarrow> if c = close then Some (g, t3) else None)))"

definition RE_SPARK_TABLE_L :: "bool \<Rightarrow> string \<Rightarrow> ((string \<times> string) \<times> string) option" where
  "RE_SPARK_TABLE_L = call_pattern ''spark.table('' (CHR '')'')"

definition RE_INSERT_INTO_L :: "bool \<Rightarrow> string \<Rightarrow> ((string \<times> string) \<times> string) option" where
  "RE_INSERT_INTO_L = call_pattern ''.insertinto('' (CHR '','')"

text \<open>\<open>spaces1 t\<close> is \<open>\s+\<close>: at least one space, then all of them.\<close>

definition spaces1 :: "string \<Rightarrow> string option" where
  "spaces1 t = (case t of [] \<Rightarrow> None | c # _ \<Rightarrow> if is_space c then Some (dropWhile is_space t) else None)"

text \<open>\<open>RE_FROM_JOIN_L\<close> is \<open>\b(?:from|join)\s+([a-z0-9_]+)\.([a-z0-9_]+)\b\<close>.\<close>

definition RE_FROM_JOIN_L :: "bool \<Rightarrow> string \<Rightarrow> ((string \<times> string) \<times> string) option" where
  "RE_FROM_JOIN_L w t =
     (if w then None
      else
        (case (case lit ''from'' t of Some r \<Rightarrow> Some r | None \<Rightarrow> lit ''join'' t) of
           None \<Rightarrow> None
         | Some t1 \<Rightarrow>
             (case spaces1 t1 of
                None \<Rightarrow> None
              | Some t2 \<Rightarrow>
                  (case dotted t2 of
                     None \<Rightarrow> None
                   | Some (g, t3) \<Rightarrow> if at_word t3 then None else Some (g, t3)))))"

text \<open>
  \<open>RE_CREATE_VIEW_L\<close> is \<open>\bcreate\s+view\s+([a-z0-9_]+(?:\.[a-z0-9_]+)?)\b\<close>. The
  qualified form is tried first; when the final \<open>\b\<close> fails after it, the engine falls
  back to the bare name, after which the dot is a boundary.
\<close>

definition RE_CREATE_VIEW_L :: "bool \<Rightarrow> string \<Rightarrow> (string \<times> string) option" where
  "RE_CREATE_VIEW_L w t =
     (if w then None
      else
        (case lit ''create'' t of
           None \<Rightarrow> None
         | Some t1 \<Rightarrow>
             (case spaces1 t1 of
                None \<Rightarrow> None
              | Some t2 \<Rightarrow>
                  (case lit ''view'' t2 of
                     None \<Rightarrow> None
                   | Some t3 \<Rightarrow>
                       (case spaces1 t3 of
                          None \<Rightarrow> None
                        | Some t4 \<Rightarrow>
                            (let name = takeWhile is_ident t4; t5 = dropWhile is_ident t4 in
                             if name = [] then None
                             else
                               (case dotted t4 of
                                  Some ((db, tbl), t6) \<Rightarrow>
                                    if at_word t6 then Some (name, t5)
                                    else Some (db @ ''.'' @ tbl, t6)
                                | None \<Rightarrow> if at_word t5 then None else Some (name, t5))))))))"

definition to_fqtn :: "string \<Rightarrow> string \<Rightarrow> string" where
  "to_fqtn db tbl = lower db @ ''.'' @ lower tbl"

section \<open>Files, writers and upstreams\<close>

text \<open>
  The corpus is what \<open>read_text\<close> returns for each path: \<open>None\<close> when the file cannot
  be read. The header-comment parser \<open>parse_output_tables_from_header\<close> contributes
  one set of names per text to the writer lookup and nothing else; it is a field of the
  environment, so every result below holds whatever set it reports. \<open>walk root\<close> is what
  \<open>os.walk(root)\<close> yields, as pairs of a directory and the names of its files; it yields
  nothing for a root that does not exist. Paths are POSIX paths.
\<close>

record env =
  read_text :: "string \<Rightarrow> string option"
  parse_output_tables_from_header :: "string \<Rightarrow> string set"
  walk :: "string \<Rightarrow> (string \<times> string list) list"

record WriterInfo =
  file_path :: string
  kind :: string

text \<open>The writer index, a \<open>Dict[str, List[WriterInfo]]\<close>, as an association list in
  insertion order with distinct keys; \<open>map_of\<close> looks a key up.\<close>

type_synonym windex = "(string \<times> WriterInfo list) list"

definition to_fqtns :: "(string \<times> string) list \<Rightarrow> string set" where
  "to_fqtns gs = set (map (\<lambda>(db, tbl). to_fqtn db tbl) gs)"

definition parse_insertinto_targets :: "string \<Rightarrow> string set" where
  "parse_insertinto_targets text = to_fqtns (findall RE_INSERT_INTO_L False 0 (lower text))"

definition parse_view_name :: "string \<Rightarrow> string option" where
  "parse_view_name text = search RE_CREATE_VIEW_L False (lower text)"

definition extract_upstreams_from_spark :: "string \<Rightarrow> string set" where
  "extract_upstreams_from_spark text = to_fqtns (findall RE_SPARK_TABLE_L False 0 (lower text))"

definition extract_upstreams_from_view :: "string \<Rightarrow> string set" where
  "extract_upstreams_from_view text = to_fqtns (findall RE_FROM_JOIN_L False 0 (lower text))"

definition get_upstreams_for_writer :: "env \<Rightarrow> WriterInfo \<Rightarrow> string set" where
  "get_upstreams_for_writer E writer =
     (case read_text E (file_path writer) of
        None \<Rightarrow> {}
      | Some text \<Rightarrow>
          if kind writer = ''spark'' then extract_upstreams_from_spark text
          else if kind writer = ''view'' then extract_upstreams_from_view text
          else {})"

definition filter_candidate_files_by_name :: "env \<Rightarrow> string list \<Rightarrow> string \<Rightarrow> string list" where
  "filter_candidate_files_by_name E files fqtn =
     filter (\<lambda>p. case read_text E p of
                    None \<Rightarrow> False
                  | Some text \<Rightarrow> wb_search fqtn False (lower text)) files"

text \<open>The body of the fallback loop of \<open>find_writers_for_table\<close> for one candidate.\<close>

definition direct_parse :: "env \<Rightarrow> string \<Rightarrow> string \<Rightarrow> WriterInfo list" where
  "direct_parse E fqtn p =
     (case read_text E p of
        None \<Rightarrow> []
      | Some text \<Rightarrow>
          if fqtn \<in> parse_output_tables_from_header E text \<union> parse_insertinto_targets text
          then [\<lparr>file_path = p, kind = ''spark''\<rparr>]
          else if parse_view_name text = Some fqtn then [\<lparr>file_path = p, kind = ''view''\<rparr>]
          else [])"

text \<open>\<open>{(w.file_path, w.kind): w for w in writers}\<close> and the list of its values.\<close>

definition uniq_writers :: "WriterInfo list \<Rightarrow> ((string \<times> string) \<times> WriterInfo) list" where
  "uniq_writers writers = foldl (\<lambda>d w. AList.update (file_path w, kind w) w d) [] writers"

definition find_writers_for_table :: "env \<Rightarrow> string \<Rightarrow> string list \<Rightarrow> windex \<Rightarrow> WriterInfo list" where
  "find_writers_for_table E fqtn0 all_files global_index =
     (let fqtn = lower fqtn0;
          candidates = filter_candidate_files_by_name E all_files fqtn;
          writers = (case map_of global_index fqtn of
                       None \<Rightarrow> []
                     | Some ws \<Rightarrow> filter (\<lambda>w. file_path w \<in> set candidates) ws);
          writers' = (if writers = [] then concat (map (direct_parse E fqtn) candidates) else writers)
      in map snd (uniq_writers writers'))"

section \<open>Lineage expansion\<close>

text \<open>
  The cache maps a name to the upstream set stored for it. The branching loop of
  \<open>dfs_lineage_paths\<close> takes the recursive call as an argument and threads the cache
  through the calls, as the shared dictionary does.
\<close>

type_synonym cache = "string \<rightharpoonup> string set"

primrec branch ::
  "(string \<Rightarrow> cache \<Rightarrow> (string list list \<times> cache) option) \<Rightarrow> string \<Rightarrow> string list \<Rightarrow> cache
    \<Rightarrow> (string list list \<times> cache) option" where
  "branch rec start_fqtn [] c = Some ([], c)"
| "branch rec start_fqtn (up_fqtn # ups) c =
     (case rec up_fqtn c of
        None \<Rightarrow> None
      | Some (subpaths, c1) \<Rightarrow>
          (case branch rec start_fqtn ups c1 of
             None \<Rightarrow> None
           | Some (more_paths, c2) \<Rightarrow> Some (map ((#) start_fqtn) subpaths @ more_paths, c2)))"

text \<open>
  \<open>dfs_lineage_paths\<close>, with the depth of recursion it may use as first argument:
  \<open>None\<close> when that depth is not enough. The source has no such bound; the results below
  show that a depth exists at which the call returns, and that the result does not depend
  on it. The result is the list of paths and the cache as the call leaves it.
\<close>

fun dfs_lineage_paths ::
  "nat \<Rightarrow> env \<Rightarrow> string \<Rightarrow> string list \<Rightarrow> windex \<Rightarrow> string list option \<Rightarrow> cache option
    \<Rightarrow> (string list list \<times> cache) option" where
  "dfs_lineage_paths 0 E start_fqtn0 all_files writers_index visited_stack0 cache_upstreams0 = None"
| "dfs_lineage_paths (Suc depth) E start_fqtn0 all_files writers_index visited_stack0 cache_upstreams0 =
     (let visited_stack = (case visited_stack0 of None \<Rightarrow> [] | Some v \<Rightarrow> v);
          cache_upstreams = (case cache_upstreams0 of None \<Rightarrow> Map.empty | Some c \<Rightarrow> c);
          start_fqtn = lower start_fqtn0
      in
        if start_fqtn \<in> set visited_stack then Some ([[start_fqtn]], cache_upstreams)
        else
          (let writers = find_writers_for_table E start_fqtn all_files writers_index;
               upstream_union =
                 (case cache_upstreams start_fqtn of
                    Some u \<Rightarrow> u
                  | None \<Rightarrow> \<Union> (set (map (get_upstreams_for_writer E) writers)));
               cache1 =
                 (case cache_upstreams start_fqtn of
                    Some u \<Rightarrow> cache_upstreams
                  | None \<Rightarrow> cache_upstreams(start_fqtn \<mapsto> upstream_union))
           in
             if writers = [] \<or> upstream_union = {} then Some ([[start_fqtn]], cache1)
             else
               branch
                 (\<lambda>up_fqtn c.
                    dfs_lineage_paths depth E up_fqtn all_files writers_index
                      (Some (visited_stack @ [start_fqtn])) (Some c))
                 start_fqtn (sorted_list_of_set upstream_union) cache1))"

section \<open>File scanning and indexing\<close>

text \<open>\<open>os.path.splitext(p)[1]\<close>: the suffix from the last dot of the last path component,
  unless only dots precede it there.\<close>

definition splitext_ext :: "string \<Rightarrow> string" where
  "splitext_ext p =
     (let base = rev (takeWhile (\<lambda>c. c \<noteq> CHR ''/'') (rev p));
          suffix = rev (takeWhile (\<lambda>c. c \<noteq> CHR ''.'') (rev base));
          stem = rev (drop 1 (dropWhile (\<lambda>c. c \<noteq> CHR ''.'') (rev base)))
      in if CHR ''.'' \<in> set base \<and> (\<exists>c\<in>set stem. c \<noteq> CHR ''.'') then CHR ''.'' # suffix else [])"

definition path_join :: "string \<Rightarrow> string \<Rightarrow> string" where
  "path_join base f =
     (if f \<noteq> [] \<and> hd f = CHR ''/'' then f
      else if base = [] \<or> last base = CHR ''/'' then base @ f
      else base @ ''/'' @ f)"

definition list_code_files :: "env \<Rightarrow> string \<Rightarrow> string list" where
  "list_code_files E root =
     concat (map (\<lambda>(base, files).
                map (path_join base)
                  (filter (\<lambda>f. lower (splitext_ext f) = ''.py'' \<or> lower (splitext_ext f) = ''.sql'') files))
               (walk E root))"

text \<open>\<open>index[k].append(w)\<close> on a \<open>defaultdict(list)\<close>.\<close>

definition index_append :: "string \<Rightarrow> WriterInfo \<Rightarrow> windex \<Rightarrow> windex" where
  "index_append k w index =
     AList.update k ((case map_of index k of None \<Rightarrow> [] | Some ws \<Rightarrow> ws) @ [w]) index"

text \<open>
  The body of the loop of \<open>index_writers\<close> for one file. The loop over the set \<open>outs\<close>
  appends one writer under each qualified name of the set; the order in which Python
  visits the set only decides the order of new keys in the dictionary, and the index is
  only ever looked up by key or asked for the sorted set of its keys. The model visits
  the set in sorted order.
\<close>

definition index_file :: "env \<Rightarrow> windex \<Rightarrow> string \<Rightarrow> windex" where
  "index_file E index p =
     (case read_text E p of
        None \<Rightarrow> index
      | Some text \<Rightarrow>
          (let ext = lower (splitext_ext p);
               outs = parse_output_tables_from_header E text \<union> parse_insertinto_targets text;
               index1 = fold (\<lambda>fqtn ix. if CHR ''.'' \<in> set fqtn
                                         then index_append fqtn \<lparr>file_path = p, kind = ''spark''\<rparr> ix
                                         else ix)
                          (sorted_list_of_set outs) index
           in if ext = ''.sql''
              then (case parse_view_name text of
                      None \<Rightarrow> index1
                    | Some v \<Rightarrow>
                        if v \<noteq> [] \<and> CHR ''.'' \<in> set v
                        then index_append v \<lparr>file_path = p, kind = ''view''\<rparr> index1
                        else index1)
              else index1))"

definition index_writers :: "env \<Rightarrow> string list \<Rightarrow> windex" where
  "index_writers E files = foldl (index_file E) [] files"

section \<open>CSV writer\<close>

text \<open>
  \<open>str.split()\<close>: the maximal runs of non-space characters. \<open>py_int\<close> is \<open>int(s)\<close> on
  such a run: an optional sign, then decimal digits, single underscores allowed between
  digits; \<open>None\<close> where \<open>int\<close> raises \<open>ValueError\<close>.
\<close>

fun split_ws :: "string \<Rightarrow> string \<Rightarrow> string list" where
  "split_ws cur [] = (if cur = [] then [] else [rev cur])"
| "split_ws cur (c # cs) =
     (if is_space c then (if cur = [] then split_ws [] cs else rev cur # split_ws [] cs)
      else split_ws (c # cur) cs)"

definition is_digit :: "char \<Rightarrow> bool" where
  "is_digit c \<longleftrightarrow> CHR ''0'' \<le> c \<and> c \<le> CHR ''9''"

fun digits_ok :: "string \<Rightarrow> bool" where
  "digits_ok [] = False"
| "digits_ok [c] = is_digit c"
| "digits_ok (c # d # r) =
     (is_digit c \<and> (if d = CHR ''_'' then digits_ok r else digits_ok (d # r)))"

definition py_int :: "string \<Rightarrow> int option" where
  "py_int s =
     (let neg = (s \<noteq> [] \<and> hd s = CHR ''-'');
          body = (if s \<noteq> [] \<and> (hd s = CHR ''-'' \<or> hd s = CHR ''+'') then tl s else s)
      in if digits_ok body
         then Some ((if neg then - 1 else 1) * int (digits_value (filter (\<lambda>c. c \<noteq> CHR ''_'') body)))
         else None)"

text \<open>The layer number of a key, where the source's \<open>try\<close> block yields one.\<close>

definition layer_number :: "string \<Rightarrow> int option" where
  "layer_number k =
     (if take 6 k = ''Layer ''
      then (case split_ws [] k of
              _ # tok # _ \<Rightarrow> py_int tok
            | _ \<Rightarrow> None)
      else None)"

definition max_layer_of :: "row list \<Rightarrow> int" where
  "max_layer_of rows =
     foldl (\<lambda>m r. foldl (\<lambda>m k. case layer_number k of None \<Rightarrow> m | Some n \<Rightarrow> max m n) m (map fst r))
       0 rows"

text \<open>
  \<open>write_csv\<close> gives the records written to the file, the header first; each is the list
  of its fields. A row's missing field is written empty and a field outside the columns
  is ignored, as \<open>csv.DictWriter\<close> does with \<open>extrasaction='ignore'\<close>. How the library
  quotes a field and ends a line is not part of the model, nor is a failure to create
  or open the file.
\<close>

definition csv_columns :: "row list \<Rightarrow> string list" where
  "csv_columns rows =
     [''Target Table''] @ map (\<lambda>i. layer_key (nat i)) [1..max_layer_of rows] @ [''Source Table'']"

definition write_csv :: "row list \<Rightarrow> string list list" where
  "write_csv rows =
     (let cols = csv_columns rows
      in cols # map (\<lambda>r. map (\<lambda>c. case map_of r c of None \<Rightarrow> [] | Some v \<Rightarrow> v) cols) rows)"

section \<open>Main\<close>

text \<open>The parsed command line: \<open>--root\<close>, \<open>--targets\<close> and \<open>--out\<close>.\<close>

record args =
  root :: string
  targets :: "string option"
  out :: string




definition expand_bare_table :: "windex \<Rightarrow> string \<Rightarrow> string list" where
  "expand_bare_table writers_index tbl_bare =
     (let suffix = ''.'' @ lower (strip tbl_bare)
      in sorted_list_of_set
           (set (filter (\<lambda>k. suffix = drop (length k - length suffix) k) (map fst writers_index))))"





section \<open>Example corpora\<close>

text \<open>
  The corpora on which the results below are run. None of their texts has an output
  header (no line of them starts, after the comment marks, with \<open>output table\<close>), so
  the header parser reports nothing for them and the writers are those that
  \<open>insertInto\<close> names.
\<close>

text \<open>Two scripts that read each other's output.\<close>

definition cyc_env :: env where
  "cyc_env = \<lparr>read_text =
       [''/etl/a.py'' \<mapsto> ''df = spark.table('d.b'); df.write.insertInto('d.a', overwrite=True)'',
        ''/etl/b.py'' \<mapsto> ''df = spark.table('d.a'); df.write.insertInto('d.b', overwrite=True)''],
     parse_output_tables_from_header = (\<lambda>_. {}),
     walk = (\<lambda>r. if r = ''/etl'' then [(''/etl'', [''a.py'', ''b.py'', ''notes.txt''])] else [])\<rparr>"

definition cyc_files :: "string list" where
  "cyc_files = list_code_files cyc_env ''/etl''"

definition cyc_index :: windex where
  "cyc_index = index_writers cyc_env cyc_files"

text \<open>
  A table with two writers, one reading \<open>d.x\<close> and one reading \<open>d.y\<close>; \<open>d.x\<close> has a
  writer that reads nothing, \<open>d.y\<close> has no writer.
\<close>

definition amb_env :: env where
  "amb_env = \<lparr>read_text =
       [''/etl/w1.py'' \<mapsto> ''df = spark.table('d.x'); df.write.insertInto('d.t', overwrite=True)'',
        ''/etl/w2.py'' \<mapsto> ''df = spark.table('d.y'); df.write.insertInto('d.t', overwrite=True)'',
        ''/etl/gen.py'' \<mapsto> ''df = make(); df.write.insertInto('d.x', overwrite=True)''],
     parse_output_tables_from_header = (\<lambda>_. {}),
     walk = (\<lambda>r. if r = ''/etl'' then [(''/etl'', [''w1.py'', ''w2.py'', ''gen.py''])] else [])\<rparr>"

definition amb_files :: "string list" where
  "amb_files = list_code_files amb_env ''/etl''"

definition amb_index :: windex where
  "amb_index = index_writers amb_env amb_files"


text \<open>
  \<open>wide_text N\<close>: one script that reads the \<open>N\<close> tables \<open>d.a\<close>, \<open>d.aa\<close>, ... and writes
  \<open>d.t\<close>.
\<close>

primrec wide_text :: "nat \<Rightarrow> string" where
  "wide_text 0 = ''df.write.insertInto('d.t', 1)''"
| "wide_text (Suc k) = ''spark.table('d.'' @ replicate (Suc k) (CHR ''a'') @ '''); '' @ wide_text k"

definition wide_env :: "nat \<Rightarrow> env" where
  "wide_env N = \<lparr>read_text = [''/etl/wide.py'' \<mapsto> wide_text N],
     parse_output_tables_from_header = (\<lambda>_. {}),
     walk = (\<lambda>r. if r = ''/etl'' then [(''/etl'', [''wide.py''])] else [])\<rparr>"

definition wide_index :: windex where
  "wide_index = [(''d.t'', [\<lparr>file_path = ''/etl/wide.py'', kind = ''spark''\<rparr>])]"

text \<open>
  \<open>chain_env N\<close>: \<open>N\<close> scripts; the \<open>k\<close>-th reads \<open>chain_table (k + 1)\<close> and writes
  \<open>chain_table k\<close>.
\<close>

definition chain_table :: "nat \<Rightarrow> string" where
  "chain_table k = ''d.'' @ replicate (Suc k) (CHR ''a'')"

definition chain_path :: "nat \<Rightarrow> string" where
  "chain_path k = ''/etl/'' @ replicate (Suc k) (CHR ''a'') @ ''.py''"

definition chain_text :: "nat \<Rightarrow> string" where
  "chain_text k = ''spark.table('d.'' @ replicate (Suc (Suc k)) (CHR ''a'')
       @ ''').write.insertInto('d.'' @ replicate (Suc k) (CHR ''a'') @ ''', 1)''"

definition chain_env :: "nat \<Rightarrow> env" where
  "chain_env N = \<lparr>read_text = map_of (map (\<lambda>k. (chain_path k, chain_text k)) [0..<N]),
     parse_output_tables_from_header = (\<lambda>_. {}),
     walk = (\<lambda>r. if r = ''/etl''
                  then [(''/etl'', map (\<lambda>k. replicate (Suc k) (CHR ''a'') @ ''.py'') [0..<N])]
                  else [])\<rparr>"

definition chain_files :: "nat \<Rightarrow> string list" where
  "chain_files N = map chain_path [0..<N]"

definition chain_index :: "nat \<Rightarrow> windex" where
  "chain_index N = map (\<lambda>k. (chain_table k, [\<lparr>file_path = chain_path k, kind = ''spark''\<rparr>])) [0..<N]"

section \<open>Notions used in the proofs\<close>

text \<open>
  None of these is part of the source. \<open>layer_cells\<close> and \<open>row_of_path\<close> write out the
  row the shaper builds. \<open>indexed_writers\<close> is the first half of the writer lookup.
  \<open>upstream_union_of\<close> is the union of the upstream sets of the writers of a name, and
  \<open>corpus_upstreams\<close> the set of all names the files of the corpus read: every upstream
  name comes from the text of a listed file, so the names a traversal can meet form a
  finite set. \<open>lineage\<close> is the enumeration as a total function, without depth bound
  and cache; its termination, proved further down, is measured by the names of that set
  not yet on the stack. \<open>cache_ok\<close> says that the cache holds, for each name it knows,
  the union the source would compute, and \<open>depth_bound\<close> is a depth that always
  suffices.
\<close>

fun layer_cells :: "nat \<Rightarrow> string list \<Rightarrow> row" where
  "layer_cells i [] = []"
| "layer_cells i (x # xs) = (layer_key i, x) # layer_cells (Suc i) xs"

text \<open>The row the shaper builds for a non-empty path, written out.\<close>

definition row_of_path :: "string \<Rightarrow> string list \<Rightarrow> row" where
  "row_of_path target p =
     (if length p = 1 then [(''Target Table'', target), (''Source Table'', p ! 0)]
      else (''Target Table'', target) # layer_cells 1 (butlast (tl p)) @ [(''Source Table'', last p)])"

definition writer_key :: "WriterInfo \<Rightarrow> string \<times> string" where
  "writer_key w = (file_path w, kind w)"

definition keyed :: "((string \<times> string) \<times> WriterInfo) list \<Rightarrow> bool" where
  "keyed d \<longleftrightarrow> (\<forall>(k, w)\<in>set d. k = writer_key w)"

definition indexed_writers :: "env \<Rightarrow> string \<Rightarrow> string list \<Rightarrow> windex \<Rightarrow> WriterInfo list" where
  "indexed_writers E fqtn all_files global_index =
     (case map_of global_index (lower fqtn) of
        None \<Rightarrow> []
      | Some ws \<Rightarrow>
          filter (\<lambda>w. file_path w \<in> set (filter_candidate_files_by_name E all_files (lower fqtn))) ws)"

definition corpus_upstreams :: "env \<Rightarrow> string list \<Rightarrow> string set" where
  "corpus_upstreams E files =
     (\<Union>p\<in>set files. case read_text E p of
                         None \<Rightarrow> {}
                       | Some text \<Rightarrow> extract_upstreams_from_spark text \<union> extract_upstreams_from_view text)"

definition upstream_union_of :: "env \<Rightarrow> string list \<Rightarrow> windex \<Rightarrow> string \<Rightarrow> string set" where
  "upstream_union_of E files idx s
     = \<Union> (set (map (get_upstreams_for_writer E) (find_writers_for_table E s files idx)))"

function lineage :: "env \<Rightarrow> string list \<Rightarrow> windex \<Rightarrow> string list \<Rightarrow> string \<Rightarrow> string list list" where
  "lineage E files idx visited t =
     (if lower t \<in> set visited then [[lower t]]
      else if find_writers_for_table E (lower t) files idx = []
              \<or> upstream_union_of E files idx (lower t) = {} then [[lower t]]
      else concat (map (\<lambda>u. map ((#) (lower t)) (lineage E files idx (visited @ [lower t]) u))
                     (sorted_list_of_set (upstream_union_of E files idx (lower t)))))"
  by pat_completeness auto

definition cache_ok :: "env \<Rightarrow> string list \<Rightarrow> windex \<Rightarrow> cache \<Rightarrow> bool" where
  "cache_ok E files idx c \<longleftrightarrow> (\<forall>k u. c k = Some u \<longrightarrow> u = upstream_union_of E files idx k)"

definition depth_bound :: "env \<Rightarrow> string list \<Rightarrow> nat" where
  "depth_bound E files = Suc (Suc (card (lower ` corpus_upstreams E files)))"

text \<open>
  A lineage path of a target, given the stack of its ancestors: the target alone when it
  is on the stack (a cut cycle) or when it is a source (no writer, or an empty union of
  its writers' upstream sets); otherwise the target followed by a lineage path of one of
  the tables that one of its writers reads.
\<close>

inductive lineage_path :: "env \<Rightarrow> string list \<Rightarrow> windex \<Rightarrow> string list \<Rightarrow> string \<Rightarrow> string list \<Rightarrow> bool"
  for E :: env and files :: "string list" and idx :: windex where
  cut: "lower t \<in> set vis \<Longrightarrow> lineage_path E files idx vis t [lower t]"
| source: "lower t \<notin> set vis \<Longrightarrow>
     find_writers_for_table E t files idx = []
       \<or> (\<Union>w\<in>set (find_writers_for_table E t files idx). get_upstreams_for_writer E w) = {} \<Longrightarrow>
     lineage_path E files idx vis t [lower t]"
| step: "lower t \<notin> set vis \<Longrightarrow> w \<in> set (find_writers_for_table E t files idx) \<Longrightarrow>
     u \<in> get_upstreams_for_writer E w \<Longrightarrow> lineage_path E files idx (vis @ [lower t]) u q \<Longrightarrow>
     lineage_path E files idx vis t (lower t # q)"

section \<open>Facts about the row shaper\<close>

lemma digit_char_value: "d < 10 \<Longrightarrow> (of_char (digit_char d) :: nat) - 48 = d"
  by (simp add: digit_char_def)

lemma digits_value_str_nat: "digits_value (str_nat n) = n"
proof (induction n rule: str_nat.induct)
  case (1 n)
  show ?case
  proof (cases "n < 10")
    case True
    then show ?thesis
      by (subst str_nat.simps) (simp add: digits_value_def digit_char_value)
  next
    case False
    have m: "n mod 10 < 10" by simp
    from False 1 have ih: "digits_value (str_nat (n div 10)) = n div 10" by simp
    have "digits_value (str_nat n) = 10 * digits_value (str_nat (n div 10)) + n mod 10"
      using False
      by (subst str_nat.simps) (simp add: digits_value_def digit_char_value [OF m])
    with ih show ?thesis by simp
  qed
qed

lemma str_nat_inj: "str_nat i = str_nat j \<Longrightarrow> i = j"
  by (metis digits_value_str_nat)

lemma layer_key_inj [simp]: "layer_key i = layer_key j \<longleftrightarrow> i = j"
  by (auto simp: layer_key_def dest: str_nat_inj)

lemma layer_key_not_fixed [simp]:
  "layer_key i \<noteq> ''Target Table''" "layer_key i \<noteq> ''Source Table''"
  "''Target Table'' \<noteq> layer_key i" "''Source Table'' \<noteq> layer_key i"
  by (simp_all add: layer_key_def)

lemma update_fresh: "k \<notin> fst ` set al \<Longrightarrow> AList.update k v al = al @ [(k, v)]"
  by (induction al) auto

lemma set_layers_fresh:
  "\<forall>j\<ge>i. layer_key j \<notin> fst ` set r \<Longrightarrow> set_layers i xs r = r @ layer_cells i xs"
proof (induction xs arbitrary: i r)
  case Nil
  then show ?case by simp
next
  case (Cons x xs)
  have fresh: "layer_key i \<notin> fst ` set r" using Cons.prems by simp
  have "\<forall>j\<ge>Suc i. layer_key j \<notin> fst ` set (r @ [(layer_key i, x)])"
    using Cons.prems by auto
  from Cons.IH [OF this] show ?case
    by (simp add: update_fresh [OF fresh])
qed

lemma layer_cells_keys: "fst ` set (layer_cells i xs) = layer_key ` {i..<i + length xs}"
proof (induction xs arbitrary: i)
  case Nil
  then show ?case by simp
next
  case (Cons x xs)
  have "{i..<i + length (x # xs)} = insert i {Suc i..<Suc i + length xs}" by auto
  with Cons.IH [of "Suc i"] show ?case by simp
qed

lemma layer_cells_length [simp]: "length (layer_cells i xs) = length xs"
  by (induction xs arbitrary: i) auto

lemma layer_cells_nth: "k < length xs \<Longrightarrow> layer_cells i xs ! k = (layer_key (i + k), xs ! k)"
proof (induction xs arbitrary: i k)
  case Nil
  then show ?case by simp
next
  case (Cons x xs)
  then show ?case by (cases k) auto
qed

lemma layer_cells_distinct: "distinct (map fst (layer_cells i xs))"
proof (induction xs arbitrary: i)
  case Nil
  then show ?case by simp
next
  case (Cons x xs)
  have "layer_key i \<notin> fst ` set (layer_cells (Suc i) xs)"
    by (auto simp: layer_cells_keys)
  with Cons.IH [of "Suc i"] show ?case by simp
qed

lemma shape_path_long:
  assumes "2 \<le> length p"
  shows "shape_path target p =
    Inr ((''Target Table'', target) # layer_cells 1 (butlast (tl p)) @ [(''Source Table'', last p)])"
proof -
  have ne: "length p \<noteq> 1" "p \<noteq> []" using assms by auto
  have s: "set_layers 1 (butlast (tl p)) [(''Target Table'', target)]
      = [(''Target Table'', target)] @ layer_cells 1 (butlast (tl p))"
    by (rule set_layers_fresh) simp
  have u: "AList.update ''Source Table'' (last p)
        (set_layers 1 (butlast (tl p)) [(''Target Table'', target)])
      = ([(''Target Table'', target)] @ layer_cells 1 (butlast (tl p))) @ [(''Source Table'', last p)]"
    unfolding s by (rule update_fresh) (auto simp: layer_cells_keys)
  show ?thesis
    using ne u by (simp add: shape_path_def)
qed

lemma layer_cells_lookup:
  "map_of (layer_cells j xs) (layer_key i) =
     (if j \<le> i \<and> i < j + length xs then Some (xs ! (i - j)) else None)"
proof (induction xs arbitrary: j)
  case Nil
  then show ?case by simp
next
  case (Cons x xs)
  show ?case
  proof (cases "i = j")
    case True
    then show ?thesis by simp
  next
    case False
    then have "map_of (layer_cells j (x # xs)) (layer_key i) = map_of (layer_cells (Suc j) xs) (layer_key i)"
      by simp
    also have "\<dots> = (if Suc j \<le> i \<and> i < Suc j + length xs then Some (xs ! (i - Suc j)) else None)"
      by (rule Cons.IH)
    also have "\<dots> = (if j \<le> i \<and> i < j + length (x # xs) then Some ((x # xs) ! (i - j)) else None)"
      using False by (auto simp: nth_Cons')
    finally show ?thesis .
  qed
qed

lemma layer_cells_lookup_other:
  "k \<notin> range layer_key \<Longrightarrow> map_of (layer_cells j xs) k = None"
  by (induction xs arbitrary: j) auto

lemma shape_path_row_of_path: "p \<noteq> [] \<Longrightarrow> shape_path target p = Inr (row_of_path target p)"
proof (cases "length p = 1")
  case True
  then show ?thesis by (simp add: shape_path_def row_of_path_def)
next
  case False
  assume "p \<noteq> []"
  then have "length p \<noteq> 0" by simp
  with False have "2 \<le> length p" by arith
  from shape_path_long [OF this] False show ?thesis by (simp add: row_of_path_def)
qed

lemma shape_paths_to_rows_map:
  "\<forall>p\<in>set paths. p \<noteq> [] \<Longrightarrow> shape_paths_to_rows target paths = Inr (map (row_of_path target) paths)"
  by (induction paths) (simp_all add: shape_path_row_of_path)

lemma fixed_keys_not_layer:
  "''Target Table'' \<notin> range layer_key" "''Source Table'' \<notin> range layer_key"
  by auto

lemma row_of_path_long:
  assumes "2 \<le> length p"
  shows "map_of (row_of_path target p) ''Target Table'' = Some target"
    and "1 \<le> i \<Longrightarrow> i \<le> length p - 2 \<Longrightarrow> map_of (row_of_path target p) (layer_key i) = Some (p ! i)"
    and "map_of (row_of_path target p) ''Source Table'' = Some (last p)"
    and "fst ` set (row_of_path target p)
          = {''Target Table'', ''Source Table''} \<union> layer_key ` {1..length p - 2}"
    and "distinct (map fst (row_of_path target p))"
proof -
  let ?inter = "butlast (tl p)"
  have len: "length ?inter = length p - 2" by simp
  have r: "row_of_path target p
      = (''Target Table'', target) # layer_cells 1 ?inter @ [(''Source Table'', last p)]"
    using assms by (simp add: row_of_path_def)
  show "map_of (row_of_path target p) ''Target Table'' = Some target"
    by (simp add: r)
  show "map_of (row_of_path target p) ''Source Table'' = Some (last p)"
    by (simp add: r map_add_def layer_cells_lookup_other [OF fixed_keys_not_layer(2)])
  show "fst ` set (row_of_path target p)
          = {''Target Table'', ''Source Table''} \<union> layer_key ` {1..length p - 2}"
  proof -
    have "{1..<1 + (length p - 2)} = {1..length p - 2}" by auto
    then show ?thesis by (auto simp: r layer_cells_keys len simp del: One_nat_def)
  qed
  show "distinct (map fst (row_of_path target p))"
    by (auto simp: r layer_cells_distinct layer_cells_keys)
  show "map_of (row_of_path target p) (layer_key i) = Some (p ! i)"
    if i: "1 \<le> i" "i \<le> length p - 2"
  proof -
    have "map_of (row_of_path target p) (layer_key i) = Some (?inter ! (i - 1))"
      using i by (simp add: r map_add_def layer_cells_lookup len del: One_nat_def)
    also have "?inter ! (i - 1) = tl p ! (i - 1)"
      using i by (intro nth_butlast) simp
    also have "\<dots> = p ! i"
      using i assms by (simp add: nth_tl)
    finally show ?thesis .
  qed
qed

section \<open>Facts about the writer lookup\<close>

lemma writer_key_inj: "writer_key v = writer_key w \<Longrightarrow> v = w"
  by (simp add: writer_key_def)

lemma keyed_update:
  "keyed d \<Longrightarrow> keyed (AList.update (writer_key w) w d) \<and>
     snd ` set (AList.update (writer_key w) w d) = insert w (snd ` set d)"
proof (induction d)
  case Nil
  then show ?case by (simp add: keyed_def)
next
  case (Cons a d)
  then show ?case
    by (cases a) (auto simp: keyed_def dest: writer_key_inj)
qed

lemma uniq_fold:
  "keyed d \<Longrightarrow> distinct (map fst d) \<Longrightarrow>
     keyed (foldl (\<lambda>d w. AList.update (file_path w, kind w) w d) d ws) \<and>
     distinct (map fst (foldl (\<lambda>d w. AList.update (file_path w, kind w) w d) d ws)) \<and>
     snd ` set (foldl (\<lambda>d w. AList.update (file_path w, kind w) w d) d ws) = snd ` set d \<union> set ws"
proof (induction ws arbitrary: d)
  case Nil
  then show ?case by simp
next
  case (Cons w ws)
  have k: "keyed (AList.update (file_path w, kind w) w d)"
    and s: "snd ` set (AList.update (file_path w, kind w) w d) = insert w (snd ` set d)"
    using keyed_update [OF Cons.prems(1), of w] by (simp_all add: writer_key_def)
  have dd: "distinct (map fst (AList.update (file_path w, kind w) w d))"
    using Cons.prems(2) by (rule distinct_update)
  from Cons.IH [OF k dd] show ?case by (simp add: s)
qed

lemma uniq_writers_image [simp]: "snd ` set (uniq_writers ws) = set ws"
  using uniq_fold [of "[]" ws] by (simp add: uniq_writers_def keyed_def)

lemma uniq_writers_set: "set (map snd (uniq_writers ws)) = set ws"
  by simp



lemma uniq_writers_Nil [simp]: "map snd (uniq_writers ws) = [] \<longleftrightarrow> ws = []"
  using uniq_writers_set [of ws] by (metis set_empty)

lemma candidates_set:
  "set (filter_candidate_files_by_name E files fqtn)
     = {p \<in> set files. \<exists>text. read_text E p = Some text \<and> wb_search fqtn False (lower text)}"
  by (auto simp: filter_candidate_files_by_name_def split: option.splits)

lemma writer_eq: "w = \<lparr>file_path = p, kind = k\<rparr> \<longleftrightarrow> file_path w = p \<and> kind w = k"
  by (cases w) simp

lemma direct_parse_set:
  "w \<in> set (direct_parse E fqtn p) \<longleftrightarrow>
     file_path w = p \<and>
     (\<exists>body. read_text E p = Some body \<and>
        (if fqtn \<in> parse_output_tables_from_header E body \<union> parse_insertinto_targets body
         then kind w = ''spark''
         else kind w = ''view'' \<and> parse_view_name body = Some fqtn))"
proof (cases "read_text E p")
  case None
  then show ?thesis by (simp add: direct_parse_def)
next
  case (Some body)
  show ?thesis
  proof (cases "fqtn \<in> parse_output_tables_from_header E body \<union> parse_insertinto_targets body")
    case True
    then show ?thesis using Some by (simp add: direct_parse_def writer_eq)
  next
    case False
    then show ?thesis using Some by (simp add: direct_parse_def writer_eq) blast
  qed
qed

lemma direct_parse_file: "w \<in> set (direct_parse E fqtn p) \<Longrightarrow> file_path w = p"
  by (simp add: direct_parse_set)

lemma find_writers_set:
  "set (find_writers_for_table E fqtn all_files global_index) =
     (if indexed_writers E fqtn all_files global_index \<noteq> []
      then set (indexed_writers E fqtn all_files global_index)
      else (\<Union>p\<in>set (filter_candidate_files_by_name E all_files (lower fqtn)).
              set (direct_parse E (lower fqtn) p)))"
  by (simp add: find_writers_for_table_def indexed_writers_def Let_def)

lemma find_writers_candidates:
  assumes "w \<in> set (find_writers_for_table E fqtn all_files global_index)"
  shows "file_path w \<in> set (filter_candidate_files_by_name E all_files (lower fqtn))"
proof (cases "indexed_writers E fqtn all_files global_index = []")
  case True
  with assms obtain p where "p \<in> set (filter_candidate_files_by_name E all_files (lower fqtn))"
    and "w \<in> set (direct_parse E (lower fqtn) p)"
    by (auto simp: find_writers_set)
  then show ?thesis by (simp add: direct_parse_file)
next
  case False
  with assms have "w \<in> set (indexed_writers E fqtn all_files global_index)"
    by (simp add: find_writers_set)
  then show ?thesis
    by (cases "map_of global_index (lower fqtn)") (simp_all add: indexed_writers_def)
qed

lemma find_writers_files:
  "w \<in> set (find_writers_for_table E fqtn all_files global_index) \<Longrightarrow> file_path w \<in> set all_files"
  using find_writers_candidates [of w E fqtn all_files global_index] by (simp add: candidates_set)


section \<open>The enumeration without depth bound and cache\<close>

text \<open>
  The upstream names a traversal can meet are those the listed files read, finitely many;
  each call puts one more of them on the stack, which is why \<open>lineage\<close> terminates.
\<close>

lemma finite_to_fqtns [simp]: "finite (to_fqtns gs)"
  by (simp add: to_fqtns_def)

lemma finite_corpus_upstreams [simp]: "finite (corpus_upstreams E files)"
  by (auto simp: corpus_upstreams_def extract_upstreams_from_spark_def
      extract_upstreams_from_view_def split: option.splits)

lemma get_upstreams_sub:
  assumes "file_path w \<in> set files"
  shows "get_upstreams_for_writer E w \<subseteq> corpus_upstreams E files"
proof (cases "read_text E (file_path w)")
  case None
  then show ?thesis by (simp add: get_upstreams_for_writer_def)
next
  case (Some body)
  have "get_upstreams_for_writer E w
      \<subseteq> extract_upstreams_from_spark body \<union> extract_upstreams_from_view body"
    by (simp add: get_upstreams_for_writer_def Some)
  also have "\<dots> \<subseteq> corpus_upstreams E files"
    unfolding corpus_upstreams_def using assms Some by (intro UN_upper [THEN subset_trans [rotated]]) auto
  finally show ?thesis .
qed

lemma upstream_union_sub: "upstream_union_of E files idx s \<subseteq> corpus_upstreams E files"
proof
  fix u assume "u \<in> upstream_union_of E files idx s"
  then obtain w where w: "w \<in> set (find_writers_for_table E s files idx)"
    and u: "u \<in> get_upstreams_for_writer E w"
    by (auto simp: upstream_union_of_def)
  from find_writers_files [OF w] have "file_path w \<in> set files" .
  from get_upstreams_sub [OF this] u show "u \<in> corpus_upstreams E files" by blast
qed

lemma finite_upstream_union [simp]: "finite (upstream_union_of E files idx s)"
  by (rule finite_subset [OF upstream_union_sub]) simp

lemma lineage_measure:
  assumes nv: "s \<notin> set visited"
    and u: "u \<in> upstream_union_of E files idx s"
  shows "card (insert (lower u) (lower ` corpus_upstreams E files) - set (visited @ [s]))
      < card (insert s (lower ` corpus_upstreams E files) - set visited)"
proof -
  let ?L = "lower ` corpus_upstreams E files"
  from u have "u \<in> corpus_upstreams E files"
    by (rule subsetD [OF upstream_union_sub])
  then have "insert (lower u) ?L = ?L" by auto
  then have "insert (lower u) ?L - set (visited @ [s]) \<subset> insert s ?L - set visited"
    using nv by auto
  then show ?thesis
    by (intro psubset_card_mono) auto
qed

termination lineage
proof (relation "measure (\<lambda>(E, files, idx, visited, t).
          card (insert (lower t) (lower ` corpus_upstreams E files) - set visited))")
  show "wf (measure (\<lambda>(E, files, idx, visited, t).
          card (insert (lower t) (lower ` corpus_upstreams E files) - set visited)))"
    by simp
next
  fix E :: env and files idx visited t u
  assume nv: "lower t \<notin> set visited"
    and u: "u \<in> set (sorted_list_of_set (upstream_union_of E files idx (lower t)))"
  from u have "u \<in> upstream_union_of E files idx (lower t)" by simp
  from lineage_measure [OF nv this]
  show "((E, files, idx, visited @ [lower t], u), (E, files, idx, visited, t))
      \<in> measure (\<lambda>(E, files, idx, visited, t).
          card (insert (lower t) (lower ` corpus_upstreams E files) - set visited))"
    by simp
qed

declare lineage.simps [simp del]

section \<open>The source function computes the enumeration\<close>

lemma cache_ok_empty [simp]: "cache_ok E files idx Map.empty"
  by (simp add: cache_ok_def)

lemma cache_ok_update:
  "cache_ok E files idx c \<Longrightarrow> cache_ok E files idx (c(k \<mapsto> upstream_union_of E files idx k))"
  by (simp add: cache_ok_def)

lemma branch_total:
  assumes "\<And>u c. u \<in> set ups \<Longrightarrow> cache_ok E files idx c
             \<Longrightarrow> \<exists>c'. rec u c = Some (f u, c') \<and> cache_ok E files idx c'"
    and "cache_ok E files idx c"
  shows "\<exists>c'. branch rec s ups c = Some (concat (map (\<lambda>u. map ((#) s) (f u)) ups), c')
           \<and> cache_ok E files idx c'"
  using assms
proof (induction ups arbitrary: c)
  case Nil
  then show ?case by simp
next
  case (Cons u ups)
  from Cons.prems(1) [of u c] Cons.prems(2)
  obtain c1 where r: "rec u c = Some (f u, c1)" and ok1: "cache_ok E files idx c1"
    by auto
  have "\<exists>c'. branch rec s ups c1 = Some (concat (map (\<lambda>u. map ((#) s) (f u)) ups), c')
           \<and> cache_ok E files idx c'"
    by (rule Cons.IH [OF _ ok1]) (simp add: Cons.prems(1))
  then obtain c2 where "branch rec s ups c1 = Some (concat (map (\<lambda>u. map ((#) s) (f u)) ups), c2)"
    and "cache_ok E files idx c2" by blast
  with r show ?case by simp
qed

lemma branch_sound:
  assumes "\<And>u c ps c'. u \<in> set ups \<Longrightarrow> cache_ok E files idx c \<Longrightarrow> rec u c = Some (ps, c')
             \<Longrightarrow> ps = f u \<and> cache_ok E files idx c'"
    and "cache_ok E files idx c"
    and "branch rec s ups c = Some (ps, c')"
  shows "ps = concat (map (\<lambda>u. map ((#) s) (f u)) ups) \<and> cache_ok E files idx c'"
  using assms
proof (induction ups arbitrary: c ps)
  case Nil
  then show ?case by simp
next
  case (Cons u ups)
  from Cons.prems(3) obtain sub c1 more where r: "rec u c = Some (sub, c1)"
    and b: "branch rec s ups c1 = Some (more, c')"
    and ps: "ps = map ((#) s) sub @ more"
    by (auto split: option.splits)
  from Cons.prems(1) [of u c sub c1] Cons.prems(2) r
  have sub: "sub = f u" and ok1: "cache_ok E files idx c1" by auto
  have "more = concat (map (\<lambda>u. map ((#) s) (f u)) ups) \<and> cache_ok E files idx c'"
    by (rule Cons.IH [OF _ ok1 b], rule Cons.prems(1)) auto
  with ps sub show ?case by simp
qed

lemma dfs_None_args:
  "dfs_lineage_paths n E t files idx None None
     = dfs_lineage_paths n E t files idx (Some []) (Some Map.empty)"
  by (cases n) simp_all

lemma cached_union:
  "cache_ok E files idx c \<Longrightarrow>
     (case c s of Some u \<Rightarrow> u
      | None \<Rightarrow> \<Union> (set (map (get_upstreams_for_writer E) (find_writers_for_table E s files idx))))
     = upstream_union_of E files idx s"
  by (auto simp: cache_ok_def upstream_union_of_def split: option.splits)

lemma cached_store:
  "cache_ok E files idx c \<Longrightarrow>
     cache_ok E files idx
       (case c s of Some u \<Rightarrow> c | None \<Rightarrow> c(s \<mapsto> upstream_union_of E files idx s))"
  by (auto simp: cache_ok_update split: option.splits)

text \<open>One unfolding of the source function, with the cache invariant used to name the union.\<close>

lemma dfs_Suc:
  assumes ok: "cache_ok E files idx c"
  shows "dfs_lineage_paths (Suc n) E t files idx (Some vis) (Some c) =
    (if lower t \<in> set vis then Some ([[lower t]], c)
     else if find_writers_for_table E (lower t) files idx = []
             \<or> upstream_union_of E files idx (lower t) = {}
     then Some ([[lower t]],
            (case c (lower t) of Some u \<Rightarrow> c
             | None \<Rightarrow> c(lower t \<mapsto> upstream_union_of E files idx (lower t))))
     else branch (\<lambda>u c. dfs_lineage_paths n E u files idx (Some (vis @ [lower t])) (Some c))
            (lower t) (sorted_list_of_set (upstream_union_of E files idx (lower t)))
            (case c (lower t) of Some u \<Rightarrow> c
             | None \<Rightarrow> c(lower t \<mapsto> upstream_union_of E files idx (lower t))))"
proof (cases "c (lower t)")
  case None
  then show ?thesis
    by (simp add: Let_def upstream_union_of_def)
next
  case (Some u0)
  with ok have "u0 = upstream_union_of E files idx (lower t)"
    by (simp add: cache_ok_def)
  with Some show ?thesis
    by (simp add: Let_def)
qed

lemma dfs_total:
  assumes "cache_ok E files idx c"
    and "card (insert (lower t) (lower ` corpus_upstreams E files) - set vis) < n"
  shows "\<exists>c'. dfs_lineage_paths n E t files idx (Some vis) (Some c)
             = Some (lineage E files idx vis t, c') \<and> cache_ok E files idx c'"
  using assms
proof (induction n arbitrary: t vis c)
  case 0
  then show ?case by simp
next
  case (Suc n)
  note ok = Suc.prems(1)
  let ?s = "lower t"
  let ?c1 = "case c ?s of Some u \<Rightarrow> c | None \<Rightarrow> c(?s \<mapsto> upstream_union_of E files idx ?s)"
  have ok1: "cache_ok E files idx ?c1" by (rule cached_store [OF ok])
  show ?case
  proof (cases "?s \<in> set vis")
    case True
    then show ?thesis using ok unfolding dfs_Suc [OF ok] lineage.simps [of E files idx vis t] by simp
  next
    case nv: False
    show ?thesis
    proof (cases "find_writers_for_table E ?s files idx = [] \<or> upstream_union_of E files idx ?s = {}")
      case True
      then show ?thesis
        using nv ok1 unfolding dfs_Suc [OF ok] lineage.simps [of E files idx vis t] by simp
    next
      case False
      have step: "\<exists>c'. dfs_lineage_paths n E u files idx (Some (vis @ [?s])) (Some c0)
             = Some (lineage E files idx (vis @ [?s]) u, c') \<and> cache_ok E files idx c'"
        if "u \<in> set (sorted_list_of_set (upstream_union_of E files idx ?s))"
          and "cache_ok E files idx c0" for u c0
      proof (rule Suc.IH [OF that(2)])
        from that(1) have "u \<in> upstream_union_of E files idx ?s" by simp
        from lineage_measure [OF nv this] Suc.prems(2)
        show "card (insert (lower u) (lower ` corpus_upstreams E files) - set (vis @ [?s])) < n"
          by simp
      qed
      have "\<exists>c'. branch (\<lambda>u c. dfs_lineage_paths n E u files idx (Some (vis @ [?s])) (Some c))
                ?s (sorted_list_of_set (upstream_union_of E files idx ?s)) ?c1
             = Some (concat (map (\<lambda>u. map ((#) ?s) (lineage E files idx (vis @ [?s]) u))
                       (sorted_list_of_set (upstream_union_of E files idx ?s))), c')
           \<and> cache_ok E files idx c'"
        by (rule branch_total [where f = "lineage E files idx (vis @ [?s])", OF step ok1])
      then show ?thesis
        using nv False unfolding dfs_Suc [OF ok] lineage.simps [of E files idx vis t] by simp
    qed
  qed
qed

lemma dfs_sound:
  assumes "cache_ok E files idx c"
    and "dfs_lineage_paths n E t files idx (Some vis) (Some c) = Some (ps, c')"
  shows "ps = lineage E files idx vis t \<and> cache_ok E files idx c'"
  using assms
proof (induction n arbitrary: t vis c ps c')
  case 0
  then show ?case by simp
next
  case (Suc n)
  note ok = Suc.prems(1)
  let ?s = "lower t"
  let ?c1 = "case c ?s of Some u \<Rightarrow> c | None \<Rightarrow> c(?s \<mapsto> upstream_union_of E files idx ?s)"
  have ok1: "cache_ok E files idx ?c1" by (rule cached_store [OF ok])
  show ?case
  proof (cases "?s \<in> set vis")
    case True
    then show ?thesis
      using ok Suc.prems(2) unfolding dfs_Suc [OF ok] lineage.simps [of E files idx vis t] by simp
  next
    case nv: False
    show ?thesis
    proof (cases "find_writers_for_table E ?s files idx = [] \<or> upstream_union_of E files idx ?s = {}")
      case True
      then show ?thesis
        using nv ok1 Suc.prems(2)
        unfolding dfs_Suc [OF ok] lineage.simps [of E files idx vis t] by auto
    next
      case False
      from Suc.prems(2) nv False
      have b: "branch (\<lambda>u c. dfs_lineage_paths n E u files idx (Some (vis @ [?s])) (Some c))
                ?s (sorted_list_of_set (upstream_union_of E files idx ?s)) ?c1 = Some (ps, c')"
        unfolding dfs_Suc [OF ok] by simp
      have "ps = concat (map (\<lambda>u. map ((#) ?s) (lineage E files idx (vis @ [?s]) u))
                       (sorted_list_of_set (upstream_union_of E files idx ?s)))
           \<and> cache_ok E files idx c'"
        by (rule branch_sound [where f = "lineage E files idx (vis @ [?s])", OF _ ok1 b])
           (rule Suc.IH)
      then show ?thesis
        using nv False by (simp add: lineage.simps [of E files idx vis t])
    qed
  qed
qed

lemma lower_char_idem [simp]: "lower_char (lower_char c) = lower_char c"
proof (cases "is_upper c")
  case False
  then show ?thesis by (simp add: lower_char_def)
next
  case True
  then have r: "65 \<le> (of_char c :: nat)" "(of_char c :: nat) \<le> 90"
    by (simp_all add: is_upper_def less_eq_char_def)
  then have "(of_char (char_of (of_char c + (32::nat))) :: nat) = of_char c + 32"
    by simp
  with r have "\<not> is_upper (char_of (of_char c + (32::nat)))"
    by (simp add: is_upper_def less_eq_char_def)
  then show ?thesis by (simp add: lower_char_def)
qed

lemma lower_idem [simp]: "lower (lower s) = lower s"
  by (simp add: lower_def)

lemma lower_append [simp]: "lower (a @ b) = lower a @ lower b"
  by (simp add: lower_def)

lemma lower_to_fqtn [simp]: "lower (to_fqtn db tbl) = to_fqtn db tbl"
proof -
  have "lower_char (CHR ''.'') = CHR ''.''"
    by (simp add: lower_char_def is_upper_def less_eq_char_def)
  then show ?thesis by (simp add: to_fqtn_def lower_def)
qed

lemma to_fqtns_lower: "u \<in> to_fqtns gs \<Longrightarrow> lower u = u"
  by (auto simp: to_fqtns_def)

lemma get_upstreams_lower: "u \<in> get_upstreams_for_writer E w \<Longrightarrow> lower u = u"
  by (auto simp: get_upstreams_for_writer_def extract_upstreams_from_spark_def
      extract_upstreams_from_view_def to_fqtns_lower split: option.splits if_splits)

lemma upstream_union_lower: "u \<in> upstream_union_of E files idx s \<Longrightarrow> lower u = u"
  by (auto simp: upstream_union_of_def get_upstreams_lower)

lemma lineage_cut: "lower t \<in> set vis \<Longrightarrow> lineage E files idx vis t = [[lower t]]"
  by (simp add: lineage.simps)

lemma lineage_terminal:
  "find_writers_for_table E (lower t) files idx = [] \<or> upstream_union_of E files idx (lower t) = {}
    \<Longrightarrow> lineage E files idx vis t = [[lower t]]"
  by (simp add: lineage.simps)

lemma lineage_branch:
  "lower t \<notin> set vis \<Longrightarrow> find_writers_for_table E (lower t) files idx \<noteq> [] \<Longrightarrow>
   upstream_union_of E files idx (lower t) \<noteq> {} \<Longrightarrow>
   lineage E files idx vis t
     = concat (map (\<lambda>u. map ((#) (lower t)) (lineage E files idx (vis @ [lower t]) u))
         (sorted_list_of_set (upstream_union_of E files idx (lower t))))"
  by (simp add: lineage.simps)

lemma lineage_cases:
  assumes "p \<in> set (lineage E files idx vis t)"
  obtains (leaf) "p = [lower t]"
  | (step) u sp where "lower t \<notin> set vis" "find_writers_for_table E (lower t) files idx \<noteq> []"
      "u \<in> upstream_union_of E files idx (lower t)"
      "sp \<in> set (lineage E files idx (vis @ [lower t]) u)" "p = lower t # sp"
proof (cases "lower t \<in> set vis \<or> find_writers_for_table E (lower t) files idx = []
    \<or> upstream_union_of E files idx (lower t) = {}")
  case True
  with assms have "p = [lower t]"
    by (auto simp: lineage_cut lineage_terminal)
  then show ?thesis by (rule leaf)
next
  case False
  with assms obtain u sp where "u \<in> upstream_union_of E files idx (lower t)"
    "sp \<in> set (lineage E files idx (vis @ [lower t]) u)" "p = lower t # sp"
    by (auto simp: lineage_branch)
  with False show ?thesis by (intro step) auto
qed

lemma lineage_head: "p \<in> set (lineage E files idx vis t) \<Longrightarrow> p \<noteq> [] \<and> hd p = lower t"
  by (erule lineage_cases) auto

lemma lineage_nonempty: "lineage E files idx vis t \<noteq> []"
proof (induction E files idx vis t rule: lineage.induct)
  case (1 E files idx visited t)
  show ?case
  proof (cases "lower t \<in> set visited \<or> find_writers_for_table E (lower t) files idx = []
      \<or> upstream_union_of E files idx (lower t) = {}")
    case True
    then show ?thesis by (auto simp: lineage_cut lineage_terminal)
  next
    case False
    then obtain u where u: "u \<in> upstream_union_of E files idx (lower t)" by auto
    then have us: "u \<in> set (sorted_list_of_set (upstream_union_of E files idx (lower t)))" by simp
    from False us have "lineage E files idx (visited @ [lower t]) u \<noteq> []"
      by (intro "1.IH") auto
    with us False show ?thesis
      by (auto simp: lineage_branch simp del: set_sorted_list_of_set)
  qed
qed

lemma lineage_distinct:
  "distinct vis \<Longrightarrow> p \<in> set (lineage E files idx vis t) \<Longrightarrow> distinct (vis @ butlast p)"
proof (induction E files idx vis t arbitrary: p rule: lineage.induct)
  case (1 E files idx visited t)
  from "1.prems"(2) show ?case
  proof (cases rule: lineage_cases)
    case leaf
    then show ?thesis using "1.prems"(1) by simp
  next
    case (step u sp)
    from step(3) have us: "u \<in> set (sorted_list_of_set (upstream_union_of E files idx (lower t)))"
      by simp
    have d: "distinct (visited @ [lower t])" using "1.prems"(1) step(1) by simp
    have "distinct ((visited @ [lower t]) @ butlast sp)"
      using step(1,2,3) us d step(4) by (intro "1.IH") auto
    moreover have "sp \<noteq> []" using lineage_head [OF step(4)] by simp
    ultimately show ?thesis using step(5) by simp
  qed
qed

lemma lineage_through:
  assumes "lower t \<notin> set vis" and "w \<in> set (find_writers_for_table E (lower t) files idx)"
    and "u \<in> get_upstreams_for_writer E w"
  shows "\<exists>sp. lower t # u # sp \<in> set (lineage E files idx vis t)"
proof -
  from assms(2,3) have uu: "u \<in> upstream_union_of E files idx (lower t)"
    by (auto simp: upstream_union_of_def)
  from lineage_nonempty obtain q where q: "q \<in> set (lineage E files idx (vis @ [lower t]) u)"
    by (meson last_in_set)
  from lineage_head [OF q] upstream_union_lower [OF uu] obtain sp where "q = u # sp"
    by (cases q) auto
  with q uu assms(1,2) have "lower t # u # sp \<in> set (lineage E files idx vis t)"
    by (subst lineage_branch) auto
  then show ?thesis ..
qed

lemma dfs_cut:
  "lower t \<in> set vis \<Longrightarrow>
     dfs_lineage_paths (Suc n) E t files idx (Some vis) co
       = Some ([[lower t]], case co of None \<Rightarrow> Map.empty | Some c \<Rightarrow> c)"
  by simp

lemma dfs_args:
  "dfs_lineage_paths n E t files idx vo co
     = dfs_lineage_paths n E t files idx
         (Some (case vo of None \<Rightarrow> [] | Some v \<Rightarrow> v))
         (Some (case co of None \<Rightarrow> Map.empty | Some c \<Rightarrow> c))"
  by (cases n) simp_all

declare dfs_lineage_paths.simps [simp del]

lemma depth_bound_enough:
  "depth_bound E files \<le> n \<Longrightarrow>
     card (insert (lower t) (lower ` corpus_upstreams E files) - set vis) < n"
proof -
  assume n: "depth_bound E files \<le> n"
  have "card (insert (lower t) (lower ` corpus_upstreams E files) - set vis)
      \<le> card (insert (lower t) (lower ` corpus_upstreams E files))"
    by (intro card_mono) auto
  also have "\<dots> \<le> Suc (card (lower ` corpus_upstreams E files))"
    by (simp add: card_insert_le_m1)
  finally show ?thesis using n by (simp add: depth_bound_def)
qed

lemma dfs_returns:
  assumes "depth_bound E files \<le> n"
  shows "\<exists>c. dfs_lineage_paths n E t files idx vo None
            = Some (lineage E files idx (case vo of None \<Rightarrow> [] | Some v \<Rightarrow> v) t, c)"
proof -
  have "\<exists>c'. dfs_lineage_paths n E t files idx
            (Some (case vo of None \<Rightarrow> [] | Some v \<Rightarrow> v)) (Some Map.empty)
          = Some (lineage E files idx (case vo of None \<Rightarrow> [] | Some v \<Rightarrow> v) t, c')
          \<and> cache_ok E files idx c'"
    by (rule dfs_total [OF cache_ok_empty depth_bound_enough [OF assms]])
  then show ?thesis
    by (subst dfs_args) auto
qed

lemma dfs_result:
  assumes "dfs_lineage_paths n E t files idx vo None = Some (ps, c)"
  shows "ps = lineage E files idx (case vo of None \<Rightarrow> [] | Some v \<Rightarrow> v) t"
proof -
  from assms have "dfs_lineage_paths n E t files idx
            (Some (case vo of None \<Rightarrow> [] | Some v \<Rightarrow> v)) (Some Map.empty) = Some (ps, c)"
    by (subst (asm) dfs_args) simp
  from dfs_sound [OF cache_ok_empty this] show ?thesis by simp
qed

lemma branch_cut:
  assumes "rec u c = Some ([[v]], c)"
  shows "branch rec s (u # ups) c
     = (case branch rec s ups c of
          None \<Rightarrow> None
        | Some (more_paths, c2) \<Rightarrow> Some ([s, v] # more_paths, c2))"
  using assms by (auto split: option.splits)

lemma find_writers_lower:
  "find_writers_for_table E (lower t) files idx = find_writers_for_table E t files idx"
  by (simp add: find_writers_for_table_def)

section \<open>Facts about the example corpora\<close>

lemma cyc_files_eq: "cyc_files = [''/etl/a.py'', ''/etl/b.py'']"
  by code_simp

lemma cyc_index_eq:
  "cyc_index = [(''d.a'', [\<lparr>file_path = ''/etl/a.py'', kind = ''spark''\<rparr>]),
                (''d.b'', [\<lparr>file_path = ''/etl/b.py'', kind = ''spark''\<rparr>])]"
  by code_simp

lemma cyc_paths:
  "map_option fst (dfs_lineage_paths 3 cyc_env ''d.a'' cyc_files cyc_index None None)
     = Some [[''d.a'', ''d.b'', ''d.a'']]"
  by code_simp

section \<open>The claims about the enumeration\<close>

text \<open>
  C2. Path enumeration terminates on every corpus, cyclic or not: from some depth on the
  call returns. Whenever the current table is already on the stack of ancestors, the call
  recurses no further and returns the single path \<open>[target]\<close>, leaving the cache as it
  was; and in the branching loop such a cut branch contributes the one path
  \<open>[start, target]\<close> while the loop goes on with the remaining upstream tables.
\<close>

theorem dfs_lineage_paths_terminates:
  "(\<exists>n0. \<forall>n\<ge>n0. \<exists>ps c. dfs_lineage_paths n E t files idx vo None = Some (ps, c)) \<and>
   (\<forall>n vis co. lower t \<in> set vis \<longrightarrow>
      dfs_lineage_paths (Suc n) E t files idx (Some vis) co
        = Some ([[lower t]], case co of None \<Rightarrow> Map.empty | Some c \<Rightarrow> c)) \<and>
   (\<forall>n s vis u ups c. lower u \<in> set vis \<longrightarrow>
      branch (\<lambda>up c. dfs_lineage_paths (Suc n) E up files idx (Some vis) (Some c)) s (u # ups) c
        = (case branch (\<lambda>up c. dfs_lineage_paths (Suc n) E up files idx (Some vis) (Some c)) s ups c of
             None \<Rightarrow> None
           | Some (more_paths, c2) \<Rightarrow> Some ([s, lower u] # more_paths, c2)))"
proof (intro conjI allI impI)
  show "\<exists>n0. \<forall>n\<ge>n0. \<exists>ps c. dfs_lineage_paths n E t files idx vo None = Some (ps, c)"
    using dfs_returns [of E files _ t idx vo] by blast
next
  fix n vis co assume "lower t \<in> set vis"
  then show "dfs_lineage_paths (Suc n) E t files idx (Some vis) co
        = Some ([[lower t]], case co of None \<Rightarrow> Map.empty | Some c \<Rightarrow> c)"
    by (rule dfs_cut)
next
  fix n s vis u ups c assume "lower u \<in> set vis"
  then have "dfs_lineage_paths (Suc n) E u files idx (Some vis) (Some c) = Some ([[lower u]], c)"
    by (simp add: dfs_cut)
  then show "branch (\<lambda>up c. dfs_lineage_paths (Suc n) E up files idx (Some vis) (Some c)) s (u # ups) c
        = (case branch (\<lambda>up c. dfs_lineage_paths (Suc n) E up files idx (Some vis) (Some c)) s ups c of
             None \<Rightarrow> None
           | Some (more_paths, c2) \<Rightarrow> Some ([s, lower u] # more_paths, c2))"
    by (rule branch_cut)
qed

theorem dfs_lineage_paths_terminates_witness:
  "map_option fst (dfs_lineage_paths 3 cyc_env ''d.a'' cyc_files cyc_index None None)
     = Some [[''d.a'', ''d.b'', ''d.a'']] \<and>
   dfs_lineage_paths (Suc 0) cyc_env ''d.a'' cyc_files cyc_index (Some [''d.a'', ''d.b'']) None
     = Some ([[''d.a'']], Map.empty) \<and>
   (\<exists>n0. \<forall>n\<ge>n0. \<exists>ps c. dfs_lineage_paths n cyc_env ''d.a'' cyc_files cyc_index None None = Some (ps, c))"
proof -
  have l: "lower ''d.a'' = ''d.a''" by code_simp
  have m: "lower ''d.a'' \<in> set [''d.a'', ''d.b'']" unfolding l by simp
  note t = dfs_lineage_paths_terminates [of cyc_env "''d.a''" cyc_files cyc_index None]
  from t [THEN conjunct2, THEN conjunct1, rule_format, OF m, of 0 None]
  have "dfs_lineage_paths (Suc 0) cyc_env ''d.a'' cyc_files cyc_index (Some [''d.a'', ''d.b'']) None
     = Some ([[''d.a'']], Map.empty)"
    unfolding l by simp
  with t [THEN conjunct1] cyc_paths show ?thesis by blast
qed

text \<open>
  C3, as the claim states it, fails: with two scripts that read each other's output the
  path returned for \<open>d.a\<close> is \<open>[d.a, d.b, d.a]\<close>, in which \<open>d.a\<close> stands twice.
\<close>

theorem dfs_path_repeats_counterexample:
  "map_option fst (dfs_lineage_paths 3 cyc_env ''d.a'' cyc_files cyc_index None None)
     = Some [[''d.a'', ''d.b'', ''d.a'']] \<and> \<not> distinct [''d.a'', ''d.b'', ''d.a'']"
  using cyc_paths by simp

text \<open>
  C3, amended. In every path returned by the enumerator all elements but the last are
  pairwise distinct; the last element may repeat an earlier one (the table at which the
  branch was cut as a cycle), and it is the only one that can.
\<close>

theorem dfs_paths_distinct_but_last:
  assumes "dfs_lineage_paths n E t files idx None None = Some (ps, c)" and "p \<in> set ps"
  shows "distinct (butlast p) \<and> (\<not> distinct p \<longrightarrow> last p \<in> set (butlast p))"
proof -
  from dfs_result [OF assms(1)] assms(2) have p: "p \<in> set (lineage E files idx [] t)" by simp
  from lineage_distinct [OF _ p] have d: "distinct (butlast p)" by simp
  from lineage_head [OF p] have "p = butlast p @ [last p]" by simp
  then have "distinct p \<longleftrightarrow> distinct (butlast p) \<and> last p \<notin> set (butlast p)"
    by (metis distinct1_rotate rotate1.simps(2) distinct.simps(2))
  with d show ?thesis by simp
qed

theorem dfs_paths_distinct_but_last_witness:
  "map_option fst (dfs_lineage_paths 3 cyc_env ''d.a'' cyc_files cyc_index None None)
     = Some [[''d.a'', ''d.b'', ''d.a'']] \<and>
   distinct (butlast [''d.a'', ''d.b'', ''d.a'']) \<and> last [''d.a'', ''d.b'', ''d.a''] \<in> set (butlast [''d.a'', ''d.b'', ''d.a''])"
proof -
  from cyc_paths obtain c where
    r: "dfs_lineage_paths 3 cyc_env ''d.a'' cyc_files cyc_index None None = Some ([[''d.a'', ''d.b'', ''d.a'']], c)"
    by (cases "dfs_lineage_paths 3 cyc_env ''d.a'' cyc_files cyc_index None None") auto
  have "[''d.a'', ''d.b'', ''d.a''] \<in> set [[''d.a'', ''d.b'', ''d.a'']]" by simp
  from dfs_paths_distinct_but_last [OF r this] cyc_paths show ?thesis by simp
qed

lemma amb_paths:
  "map_option fst (dfs_lineage_paths 2 amb_env ''d.t'' amb_files amb_index None None)
     = Some [[''d.t'', ''d.x''], [''d.t'', ''d.y'']]"
  by code_simp

lemma amb_writers:
  "find_writers_for_table amb_env ''d.t'' amb_files amb_index
     = [\<lparr>file_path = ''/etl/w1.py'', kind = ''spark''\<rparr>, \<lparr>file_path = ''/etl/w2.py'', kind = ''spark''\<rparr>]"
  "get_upstreams_for_writer amb_env \<lparr>file_path = ''/etl/w1.py'', kind = ''spark''\<rparr> = {''d.x''}"
  "get_upstreams_for_writer amb_env \<lparr>file_path = ''/etl/w2.py'', kind = ''spark''\<rparr> = {''d.y''}"
  by code_simp+

lemma amb_terminal:
  "find_writers_for_table amb_env ''d.x'' amb_files amb_index
     = [\<lparr>file_path = ''/etl/gen.py'', kind = ''spark''\<rparr>]"
  "get_upstreams_for_writer amb_env \<lparr>file_path = ''/etl/gen.py'', kind = ''spark''\<rparr> = {}"
  "find_writers_for_table amb_env ''d.y'' amb_files amb_index = []"
  "lower ''d.x'' = ''d.x''" "lower ''d.y'' = ''d.y''" "lower ''d.t'' = ''d.t''"
  by code_simp+

lemma dfs_terminal:
  assumes "find_writers_for_table E t files idx = []
      \<or> (\<Union>w\<in>set (find_writers_for_table E t files idx). get_upstreams_for_writer E w) = {}"
  shows "\<exists>c. dfs_lineage_paths (Suc n) E t files idx None None = Some ([[lower t]], c)"
proof -
  from assms have tm: "find_writers_for_table E (lower t) files idx = []
      \<or> upstream_union_of E files idx (lower t) = {}"
    by (simp add: find_writers_lower upstream_union_of_def)
  have "dfs_lineage_paths (Suc n) E t files idx None None
      = dfs_lineage_paths (Suc n) E t files idx (Some []) (Some Map.empty)"
    by (subst dfs_args) simp
  also have "\<exists>c. \<dots> = Some ([[lower t]], c)"
    using tm unfolding dfs_Suc [OF cache_ok_empty] by simp
  finally show ?thesis .
qed

text \<open>
  C4. For a target that has no writers, or whose writers' upstream sets have an empty
  union, the enumeration returns exactly the single one-element path \<open>[[target]]\<close> (the
  target in its canonical lower case, which a canonical name equals), at any depth; and
  shaping that result for the target gives exactly one row, whose Target and Source fields
  both are the target and which has no Layer field.
\<close>

theorem terminal_target_single_row:
  assumes "find_writers_for_table E t files idx = []
      \<or> (\<Union>w\<in>set (find_writers_for_table E t files idx). get_upstreams_for_writer E w) = {}"
  shows "(\<exists>c. dfs_lineage_paths (Suc n) E t files idx None None = Some ([[lower t]], c)) \<and>
    shape_paths_to_rows (lower t) [[lower t]]
      = Inr [[(''Target Table'', lower t), (''Source Table'', lower t)]]"
proof
  show "\<exists>c. dfs_lineage_paths (Suc n) E t files idx None None = Some ([[lower t]], c)"
    using assms by (rule dfs_terminal)
  show "shape_paths_to_rows (lower t) [[lower t]]
      = Inr [[(''Target Table'', lower t), (''Source Table'', lower t)]]"
    by (simp add: shape_path_def)
qed

theorem terminal_target_single_row_witness:
  "(\<exists>c. dfs_lineage_paths (Suc 0) amb_env ''d.x'' amb_files amb_index None None = Some ([[''d.x'']], c)) \<and>
   shape_paths_to_rows ''d.x'' [[''d.x'']] = Inr [[(''Target Table'', ''d.x''), (''Source Table'', ''d.x'')]] \<and>
   (\<exists>c. dfs_lineage_paths (Suc 0) amb_env ''d.y'' amb_files amb_index None None = Some ([[''d.y'']], c))"
proof -
  have x: "find_writers_for_table amb_env ''d.x'' amb_files amb_index = []
      \<or> (\<Union>w\<in>set (find_writers_for_table amb_env ''d.x'' amb_files amb_index).
            get_upstreams_for_writer amb_env w) = {}"
    by (simp add: amb_terminal)
  have y: "find_writers_for_table amb_env ''d.y'' amb_files amb_index = []
      \<or> (\<Union>w\<in>set (find_writers_for_table amb_env ''d.y'' amb_files amb_index).
            get_upstreams_for_writer amb_env w) = {}"
    by (simp add: amb_terminal)
  from terminal_target_single_row [OF x, of 0] terminal_target_single_row [OF y, of 0]
  show ?thesis by (simp only: amb_terminal)
qed

text \<open>
  C7. The upstream sets of all writers of a table are unioned before branching: every
  table read by any writer of the target is the second element of some returned path, and
  the second element of every returned path of length two or more is read by some writer.
  With two writers, one reading \<open>{X}\<close> and one reading \<open>{Y}\<close>, there is a path through
  \<open>X\<close> and a path through \<open>Y\<close>.
\<close>

theorem writers_upstreams_unioned:
  "\<exists>n0. \<forall>n\<ge>n0. \<exists>ps c. dfs_lineage_paths n E t files idx None None = Some (ps, c) \<and>
      (\<forall>w\<in>set (find_writers_for_table E t files idx). \<forall>u\<in>get_upstreams_for_writer E w.
          \<exists>p\<in>set ps. 2 \<le> length p \<and> p ! 0 = lower t \<and> p ! 1 = u) \<and>
      (\<forall>p\<in>set ps. 2 \<le> length p \<longrightarrow>
          p ! 1 \<in> (\<Union>w\<in>set (find_writers_for_table E t files idx). get_upstreams_for_writer E w))"
proof (rule exI [of _ "depth_bound E files"], intro allI impI)
  fix n assume n: "depth_bound E files \<le> n"
  from dfs_returns [OF n, of t idx None]
  obtain c where r: "dfs_lineage_paths n E t files idx None None = Some (lineage E files idx [] t, c)"
    by auto
  have a: "\<exists>p\<in>set (lineage E files idx [] t). 2 \<le> length p \<and> p ! 0 = lower t \<and> p ! 1 = u"
    if "w \<in> set (find_writers_for_table E t files idx)" "u \<in> get_upstreams_for_writer E w" for w u
  proof -
    from that(1) have "w \<in> set (find_writers_for_table E (lower t) files idx)"
      by (simp add: find_writers_lower)
    from lineage_through [OF _ this that(2), of "[]"]
    obtain sp where "lower t # u # sp \<in> set (lineage E files idx [] t)" by auto
    then show ?thesis by (intro bexI [of _ "lower t # u # sp"]) auto
  qed
  have b: "p ! 1 \<in> (\<Union>w\<in>set (find_writers_for_table E t files idx). get_upstreams_for_writer E w)"
    if "p \<in> set (lineage E files idx [] t)" "2 \<le> length p" for p
    using that(1)
  proof (cases rule: lineage_cases)
    case leaf
    with that(2) show ?thesis by simp
  next
    case (step u sp)
    from lineage_head [OF step(4)] upstream_union_lower [OF step(3)] have "hd sp = u" "sp \<noteq> []"
      by auto
    then have "p ! 1 = u" using step(5) by (cases sp) auto
    with step(3) show ?thesis
      by (simp add: upstream_union_of_def find_writers_lower)
  qed
  from r a b
  show "\<exists>ps c. dfs_lineage_paths n E t files idx None None = Some (ps, c) \<and>
      (\<forall>w\<in>set (find_writers_for_table E t files idx). \<forall>u\<in>get_upstreams_for_writer E w.
          \<exists>p\<in>set ps. 2 \<le> length p \<and> p ! 0 = lower t \<and> p ! 1 = u) \<and>
      (\<forall>p\<in>set ps. 2 \<le> length p \<longrightarrow>
          p ! 1 \<in> (\<Union>w\<in>set (find_writers_for_table E t files idx). get_upstreams_for_writer E w))"
    by blast
qed

theorem writers_upstreams_unioned_witness:
  "find_writers_for_table amb_env ''d.t'' amb_files amb_index
     = [\<lparr>file_path = ''/etl/w1.py'', kind = ''spark''\<rparr>, \<lparr>file_path = ''/etl/w2.py'', kind = ''spark''\<rparr>] \<and>
   get_upstreams_for_writer amb_env \<lparr>file_path = ''/etl/w1.py'', kind = ''spark''\<rparr> = {''d.x''} \<and>
   get_upstreams_for_writer amb_env \<lparr>file_path = ''/etl/w2.py'', kind = ''spark''\<rparr> = {''d.y''} \<and>
   map_option fst (dfs_lineage_paths 2 amb_env ''d.t'' amb_files amb_index None None)
     = Some [[''d.t'', ''d.x''], [''d.t'', ''d.y'']] \<and>
   (\<exists>n0. \<forall>n\<ge>n0. \<exists>ps c. dfs_lineage_paths n amb_env ''d.t'' amb_files amb_index None None = Some (ps, c) \<and>
      (\<exists>p\<in>set ps. 2 \<le> length p \<and> p ! 0 = ''d.t'' \<and> p ! 1 = ''d.x'') \<and>
      (\<exists>p\<in>set ps. 2 \<le> length p \<and> p ! 0 = ''d.t'' \<and> p ! 1 = ''d.y''))"
proof -
  from writers_upstreams_unioned [of amb_env "''d.t''" amb_files amb_index]
  obtain n0 where n0: "\<forall>n\<ge>n0. \<exists>ps c. dfs_lineage_paths n amb_env ''d.t'' amb_files amb_index None None = Some (ps, c) \<and>
      (\<forall>w\<in>set (find_writers_for_table amb_env ''d.t'' amb_files amb_index). \<forall>u\<in>get_upstreams_for_writer amb_env w.
          \<exists>p\<in>set ps. 2 \<le> length p \<and> p ! 0 = lower ''d.t'' \<and> p ! 1 = u)"
    by blast
  have "\<exists>ps c. dfs_lineage_paths n amb_env ''d.t'' amb_files amb_index None None = Some (ps, c) \<and>
      (\<exists>p\<in>set ps. 2 \<le> length p \<and> p ! 0 = ''d.t'' \<and> p ! 1 = ''d.x'') \<and>
      (\<exists>p\<in>set ps. 2 \<le> length p \<and> p ! 0 = ''d.t'' \<and> p ! 1 = ''d.y'')" if "n0 \<le> n" for n
  proof -
    from n0 that obtain ps c where
      r: "dfs_lineage_paths n amb_env ''d.t'' amb_files amb_index None None = Some (ps, c)"
      and u: "\<forall>w\<in>set (find_writers_for_table amb_env ''d.t'' amb_files amb_index). \<forall>u\<in>get_upstreams_for_writer amb_env w.
          \<exists>p\<in>set ps. 2 \<le> length p \<and> p ! 0 = lower ''d.t'' \<and> p ! 1 = u"
      by blast
    from u have "(\<exists>p\<in>set ps. 2 \<le> length p \<and> p ! 0 = ''d.t'' \<and> p ! 1 = ''d.x'') \<and>
      (\<exists>p\<in>set ps. 2 \<le> length p \<and> p ! 0 = ''d.t'' \<and> p ! 1 = ''d.y'')"
      by (simp add: amb_writers amb_terminal)
    with r show ?thesis by blast
  qed
  with amb_writers amb_paths show ?thesis by blast
qed

lemma blocks_sorted:
  fixes L :: "string \<Rightarrow> string list list"
  assumes "sorted_wrt (<) us"
    and "\<And>u. u \<in> set us \<Longrightarrow> sorted_wrt (<) (L u)"
    and "\<And>u p. u \<in> set us \<Longrightarrow> p \<in> set (L u) \<Longrightarrow> p \<noteq> [] \<and> hd p = u"
  shows "sorted_wrt (<) (concat (map (\<lambda>u. map ((#) s) (L u)) us))"
  using assms
proof (induction us)
  case Nil
  then show ?case by simp
next
  case (Cons u us)
  have here: "sorted_wrt (<) (map ((#) s) (L u))"
    using Cons.prems(2) [of u] by (simp add: sorted_wrt_map)
  have rest: "sorted_wrt (<) (concat (map (\<lambda>u. map ((#) s) (L u)) us))"
    using Cons.prems by (intro Cons.IH) auto
  have cross: "x < y" if "x \<in> set (map ((#) s) (L u))"
    "y \<in> set (concat (map (\<lambda>u. map ((#) s) (L u)) us))" for x y
  proof -
    from that(1) obtain p where p: "p \<in> set (L u)" "x = s # p" by auto
    from that(2) obtain v q where q: "v \<in> set us" "q \<in> set (L v)" "y = s # q" by auto
    from Cons.prems(1) q(1) have uv: "u < v" by simp
    from Cons.prems(3) [of u p] p(1) obtain p' where p': "p = u # p'" by (cases p) auto
    from Cons.prems(3) [of v q] q(1,2) obtain q' where q': "q = v # q'" by (cases q) auto
    show ?thesis using uv by (simp add: p(2) q(3) p' q')
  qed
  show ?case
    using here rest cross by (simp add: sorted_wrt_append)
qed

lemma lineage_sorted: "sorted_wrt (<) (lineage E files idx vis t)"
proof (induction E files idx vis t rule: lineage.induct)
  case (1 E files idx visited t)
  show ?case
  proof (cases "lower t \<in> set visited \<or> find_writers_for_table E (lower t) files idx = []
      \<or> upstream_union_of E files idx (lower t) = {}")
    case True
    then show ?thesis by (auto simp: lineage_cut lineage_terminal)
  next
    case False
    let ?us = "sorted_list_of_set (upstream_union_of E files idx (lower t))"
    have "sorted_wrt (<) (concat (map (\<lambda>u. map ((#) (lower t))
              (lineage E files idx (visited @ [lower t]) u)) ?us))"
    proof (rule blocks_sorted)
      show "sorted_wrt (<) ?us" by (rule strict_sorted_list_of_set)
    next
      fix u assume "u \<in> set ?us"
      with False show "sorted_wrt (<) (lineage E files idx (visited @ [lower t]) u)"
        by (intro "1.IH") auto
    next
      fix u p assume u: "u \<in> set ?us" and p: "p \<in> set (lineage E files idx (visited @ [lower t]) u)"
      from u have "lower u = u" by (simp add: upstream_union_lower)
      with lineage_head [OF p] show "p \<noteq> [] \<and> hd p = u" by simp
    qed
    with False show ?thesis by (simp add: lineage_branch)
  qed
qed

text \<open>
  C6. Two runs of the enumeration on the same corpus, index and target return the same
  list of paths, whatever depth each was allowed; and the list is strictly increasing in
  the lexicographic order of paths, which is what branching on the sorted upstream tables
  and concatenating the sub-paths in that order produces at every node. The upstream sets
  themselves are sets, so nothing depends on the order in which Python would visit them.
\<close>

theorem dfs_lineage_paths_deterministic:
  assumes "dfs_lineage_paths n1 E t files idx None None = Some (ps1, c1)"
    and "dfs_lineage_paths n2 E t files idx None None = Some (ps2, c2)"
  shows "ps1 = ps2 \<and> sorted_wrt (<) ps1"
proof -
  from dfs_result [OF assms(1)] dfs_result [OF assms(2)] have "ps1 = ps2" by simp
  moreover from dfs_result [OF assms(1)] have "sorted_wrt (<) ps1"
    by (simp add: lineage_sorted)
  ultimately show ?thesis ..
qed

lemma amb_paths_deeper:
  "map_option fst (dfs_lineage_paths 5 amb_env ''d.t'' amb_files amb_index None None)
     = Some [[''d.t'', ''d.x''], [''d.t'', ''d.y'']]"
  by code_simp

theorem dfs_lineage_paths_deterministic_witness:
  "map_option fst (dfs_lineage_paths 2 amb_env ''d.t'' amb_files amb_index None None)
     = map_option fst (dfs_lineage_paths 5 amb_env ''d.t'' amb_files amb_index None None) \<and>
   map_option fst (dfs_lineage_paths 5 amb_env ''d.t'' amb_files amb_index None None)
     = Some [[''d.t'', ''d.x''], [''d.t'', ''d.y'']] \<and>
   sorted_wrt (<) [[''d.t'', ''d.x''], [''d.t'', ''d.y'']]"
proof -
  from amb_paths obtain c1 where
    r1: "dfs_lineage_paths 2 amb_env ''d.t'' amb_files amb_index None None
          = Some ([[''d.t'', ''d.x''], [''d.t'', ''d.y'']], c1)"
    by (cases "dfs_lineage_paths 2 amb_env ''d.t'' amb_files amb_index None None") auto
  from amb_paths_deeper obtain c2 where
    r2: "dfs_lineage_paths 5 amb_env ''d.t'' amb_files amb_index None None
          = Some ([[''d.t'', ''d.x''], [''d.t'', ''d.y'']], c2)"
    by (cases "dfs_lineage_paths 5 amb_env ''d.t'' amb_files amb_index None None") auto
  from dfs_lineage_paths_deterministic [OF r1 r2]
  have s: "sorted_wrt (<) [[''d.t'', ''d.x''], [''d.t'', ''d.y'']]" by simp
  show ?thesis
    unfolding amb_paths amb_paths_deeper by (intro conjI refl s)
qed

section \<open>The claim about the row shaper\<close>

text \<open>
  C5. For every path \<open>p\<close> with at least two elements the shaper emits exactly one row
  (the list of rows has one row per path, in order): its Target field is the target the
  caller supplied, its field \<open>Layer i\<close> is \<open>p[i]\<close> for \<open>i = 1 .. len(p) - 2\<close>, its Source
  field is the last element of \<open>p\<close>, and it has no other field. The paths are taken
  non-empty, as the enumerator returns them (on an empty path the source raises
  \<open>IndexError\<close>); and every path the enumerator returns for a target starts with that
  target in lower case, which is the canonical target the run passes to the shaper, so
  the Target field agrees with \<open>p[0]\<close>.
\<close>

theorem shape_paths_to_rows_layers:
  assumes "\<forall>p\<in>set paths. p \<noteq> []"
  shows "(\<exists>rows. shape_paths_to_rows target paths = Inr rows \<and> length rows = length paths \<and>
    (\<forall>k<length paths. 2 \<le> length (paths ! k) \<longrightarrow>
       map_of (rows ! k) ''Target Table'' = Some target \<and>
       (\<forall>i. 1 \<le> i \<and> i \<le> length (paths ! k) - 2 \<longrightarrow>
          map_of (rows ! k) (layer_key i) = Some (paths ! k ! i)) \<and>
       map_of (rows ! k) ''Source Table'' = Some (last (paths ! k)) \<and>
       fst ` set (rows ! k)
         = {''Target Table'', ''Source Table''} \<union> layer_key ` {1..length (paths ! k) - 2} \<and>
       distinct (map fst (rows ! k)))) \<and>
    (\<forall>n E t files idx ps c. dfs_lineage_paths n E t files idx None None = Some (ps, c) \<longrightarrow>
       (\<forall>p\<in>set ps. p \<noteq> [] \<and> hd p = lower t))"
proof (intro exI conjI allI impI ballI)
  show "shape_paths_to_rows target paths = Inr (map (row_of_path target) paths)"
    using assms by (rule shape_paths_to_rows_map)
  show "length (map (row_of_path target) paths) = length paths" by simp
next
  fix k assume k: "k < length paths" and l: "2 \<le> length (paths ! k)"
  have e: "map (row_of_path target) paths ! k = row_of_path target (paths ! k)"
    using k by simp
  show "map_of (map (row_of_path target) paths ! k) ''Target Table'' = Some target"
    unfolding e by (rule row_of_path_long(1) [OF l])
  show "map_of (map (row_of_path target) paths ! k) ''Source Table'' = Some (last (paths ! k))"
    unfolding e by (rule row_of_path_long(3) [OF l])
  show "fst ` set (map (row_of_path target) paths ! k)
         = {''Target Table'', ''Source Table''} \<union> layer_key ` {1..length (paths ! k) - 2}"
    unfolding e by (rule row_of_path_long(4) [OF l])
  show "distinct (map fst (map (row_of_path target) paths ! k))"
    unfolding e by (rule row_of_path_long(5) [OF l])
  fix i assume "1 \<le> i \<and> i \<le> length (paths ! k) - 2"
  then show "map_of (map (row_of_path target) paths ! k) (layer_key i) = Some (paths ! k ! i)"
    unfolding e using row_of_path_long(2) [OF l] by blast
next
  fix n E t files idx ps c and p :: "string list"
  assume r: "dfs_lineage_paths n E t files idx None None = Some (ps, c)" and p: "p \<in> set ps"
  from dfs_result [OF r] p have "p \<in> set (lineage E files idx [] t)" by simp
  from lineage_head [OF this] show "p \<noteq> []" "hd p = lower t" by simp_all
qed

theorem shape_paths_to_rows_layers_witness:
  "shape_paths_to_rows ''d.t'' [[''d.t'', ''d.m'', ''d.n'', ''d.s'']]
     = Inr [[(''Target Table'', ''d.t''), (''Layer 1'', ''d.m''), (''Layer 2'', ''d.n''),
             (''Source Table'', ''d.s'')]]
   \<and> (\<exists>rows. shape_paths_to_rows ''d.t'' [[''d.t'', ''d.m'', ''d.n'', ''d.s'']] = Inr rows \<and>
         length rows = 1 \<and>
         map_of (rows ! 0) ''Target Table'' = Some ''d.t'' \<and>
         map_of (rows ! 0) (layer_key 1) = Some ''d.m'' \<and>
         map_of (rows ! 0) (layer_key 2) = Some ''d.n'' \<and>
         map_of (rows ! 0) ''Source Table'' = Some ''d.s'' \<and>
         fst ` set (rows ! 0) = {''Target Table'', ''Source Table''} \<union> layer_key ` {1..2})"
proof (rule conjI)
  show "shape_paths_to_rows ''d.t'' [[''d.t'', ''d.m'', ''d.n'', ''d.s'']]
     = Inr [[(''Target Table'', ''d.t''), (''Layer 1'', ''d.m''), (''Layer 2'', ''d.n''),
             (''Source Table'', ''d.s'')]]"
    by code_simp
  let ?P = "[[''d.t'', ''d.m'', ''d.n'', ''d.s'']]"
  have ne: "\<forall>p\<in>set ?P. p \<noteq> []" by simp
  from shape_paths_to_rows_layers [OF ne, of "''d.t''", THEN conjunct1]
  obtain rows where r: "shape_paths_to_rows ''d.t'' ?P = Inr rows" "length rows = length ?P"
    and f: "\<forall>k<length ?P. 2 \<le> length (?P ! k) \<longrightarrow>
       map_of (rows ! k) ''Target Table'' = Some ''d.t'' \<and>
       (\<forall>i. 1 \<le> i \<and> i \<le> length (?P ! k) - 2 \<longrightarrow>
          map_of (rows ! k) (layer_key i) = Some (?P ! k ! i)) \<and>
       map_of (rows ! k) ''Source Table'' = Some (last (?P ! k)) \<and>
       fst ` set (rows ! k)
         = {''Target Table'', ''Source Table''} \<union> layer_key ` {1..length (?P ! k) - 2} \<and>
       distinct (map fst (rows ! k))"
    by (elim exE conjE)
  have k: "0 < length ?P" "2 \<le> length (?P ! 0)" by simp_all
  note g = f [rule_format, OF k]
  have l: "length (?P ! 0) - 2 = 2" "last (?P ! 0) = ''d.s''" "?P ! 0 ! 1 = ''d.m''"
    "?P ! 0 ! 2 = ''d.n''" by simp_all
  have a1: "map_of (rows ! 0) (layer_key 1) = Some ''d.m''"
    using g [THEN conjunct2, THEN conjunct1, rule_format, of 1] unfolding l by simp
  have a2: "map_of (rows ! 0) (layer_key 2) = Some ''d.n''"
    using g [THEN conjunct2, THEN conjunct1, rule_format, of 2] unfolding l by simp
  show "\<exists>rows. shape_paths_to_rows ''d.t'' ?P = Inr rows \<and>
         length rows = 1 \<and>
         map_of (rows ! 0) ''Target Table'' = Some ''d.t'' \<and>
         map_of (rows ! 0) (layer_key 1) = Some ''d.m'' \<and>
         map_of (rows ! 0) (layer_key 2) = Some ''d.n'' \<and>
         map_of (rows ! 0) ''Source Table'' = Some ''d.s'' \<and>
         fst ` set (rows ! 0) = {''Target Table'', ''Source Table''} \<union> layer_key ` {1..2}"
  proof (intro exI [of _ rows] conjI)
    show "shape_paths_to_rows ''d.t'' ?P = Inr rows" by (rule r(1))
    show "length rows = 1" using r(2) by simp
    show "map_of (rows ! 0) ''Target Table'' = Some ''d.t''" using g by blast
    show "map_of (rows ! 0) (layer_key 1) = Some ''d.m''" by (rule a1)
    show "map_of (rows ! 0) (layer_key 2) = Some ''d.n''" by (rule a2)
    show "map_of (rows ! 0) ''Source Table'' = Some ''d.s''"
      using g [THEN conjunct2, THEN conjunct2, THEN conjunct1] unfolding l .
    show "fst ` set (rows ! 0) = {''Target Table'', ''Source Table''} \<union> layer_key ` {1..2}"
      using g [THEN conjunct2, THEN conjunct2, THEN conjunct2, THEN conjunct1] unfolding l .
  qed
qed

section \<open>The claim about the CSV writer\<close>

text \<open>
  C10. Called with no rows, the CSV writer still writes a file: exactly one record, the
  header with the two columns \<open>Target Table\<close> and \<open>Source Table\<close> and no Layer column.
\<close>

theorem write_csv_no_rows: "write_csv [] = [[''Target Table'', ''Source Table'']]"
  by (simp add: write_csv_def csv_columns_def max_layer_of_def)

section \<open>The claim about the writer lookup\<close>







text \<open>The empty corpus.\<close>

lemma find_writers_no_files [simp]: "find_writers_for_table E t [] idx = []"
proof -
  have "filter_candidate_files_by_name E [] (lower t) = []"
    by (simp add: filter_candidate_files_by_name_def)
  then have c: "set (filter_candidate_files_by_name E [] (lower t)) = {}" by simp
  have "indexed_writers E t [] idx = []"
    by (simp add: indexed_writers_def c split: option.splits)
  then have "set (find_writers_for_table E t [] idx) = {}"
    by (simp add: find_writers_set c)
  then show ?thesis by simp
qed

lemma lineage_no_files [simp]: "lineage E [] idx [] t = [[lower t]]"
  by (simp add: lineage_terminal)

lemma row_of_single: "row_of_path t [s] = [(''Target Table'', t), (''Source Table'', s)]"
  by (simp add: row_of_path_def)

lemma layer_number_fixed [simp]:
  "layer_number ''Target Table'' = None" "layer_number ''Source Table'' = None"
  by (simp_all add: layer_number_def)




lemma index_writers_no_files [simp]: "index_writers E [] = []"
  by (simp add: index_writers_def)

lemma expand_empty_index [simp]: "expand_bare_table [] t = []"
  by (simp add: expand_bare_table_def)








section \<open>The claim about the whole run\<close>




section \<open>Facts about the patterns on texts with a repeated letter\<close>

lemma lit_append [simp]: "lit xs (xs @ r) = Some r"
  by (induction xs) auto

lemma ident_a [simp]: "is_ident (CHR ''a'')" "is_word (CHR ''a'')" "is_word (CHR ''d'')"
  "\<not> is_word (CHR 0x27)" "\<not> is_ident (CHR 0x27)" "is_quote (CHR 0x27)" "\<not> is_space (CHR 0x27)"
  "\<not> is_ident (CHR ''.'')" "is_ident (CHR ''d'')"
  by (simp_all add: is_ident_def is_word_def is_upper_def less_eq_char_def is_quote_def is_space_def)

lemma lower_replicate_a [simp]: "lower (replicate k (CHR ''a'')) = replicate k (CHR ''a'')"
  by (simp add: lower_def lower_char_def is_upper_def less_eq_char_def)













section \<open>Facts about the two families of corpora\<close>

lemma wide_index_built: "index_writers (wide_env 2) (list_code_files (wide_env 2) ''/etl'') = wide_index"
  by code_simp








lemma lower_dt [simp]: "lower ''d.t'' = ''d.t''"
  by code_simp





lemma chain_built:
  "list_code_files (chain_env 2) ''/etl'' = chain_files 2"
  "index_writers (chain_env 2) (chain_files 2) = chain_index 2"
  by code_simp+




lemma chain_table_lower [simp]: "lower (chain_table k) = chain_table k"
proof -
  have "lower ''d.'' = ''d.''" by code_simp
  then show ?thesis
    by (simp only: chain_table_def lower_append lower_replicate_a)
qed







section \<open>The claim about a ceiling\<close>


section \<open>The enumeration returns the lineage paths\<close>








end
